theory Spec2Isabelle
  imports Complex_Main
begin

section \<open>Index expressions and exceptions\<close>

text \<open>
  The exceptions the modelled functions of \<^verbatim>\<open>tensordict/utils.py\<close> can raise. A
  \<^verbatim>\<open>RuntimeError\<close>, \<^verbatim>\<open>ValueError\<close> or \<^verbatim>\<open>KeyError\<close> carries the message literal of the
  source; where the source formats values into the message, only its fixed head is
  kept.
\<close>

datatype exn =
    RuntimeError string
  | TypeError
  | StopIteration
  | IndexError
  | ValueError string
  | NotImplementedError
  | KeyError string
  | ZeroDivisionError
  | ImportError

text \<open>
  One element of an index expression (\<^verbatim>\<open>INDEX_TYPING\<close>): an integer, a slice with its
  optional start, stop and step, a list of integers, a one-dimensional boolean tensor, a
  one-dimensional integer tensor, \<^verbatim>\<open>None\<close>, the ellipsis, a string key, a tuple of
  elements, a one-dimensional \<^verbatim>\<open>np.ndarray\<close> of booleans or of integers, or a list of
  booleans. The source tells a \<^verbatim>\<open>torch.Tensor\<close> from an \<^verbatim>\<open>np.ndarray\<close> and from a \<^verbatim>\<open>list\<close>, and
  looks at the \<^verbatim>\<open>dtype\<close> of a \<^verbatim>\<open>torch.Tensor\<close> only.
\<close>

datatype item =
    IInt int
  | ISlice "int option" "int option" "int option"
  | IList "int list"
  | IBoolTensor "bool list"
  | IIntTensor "int list"
  | INone
  | IEllipsis
  | IStr string
  | ITuple "item list"
  | IBoolArray "bool list"
  | IIntArray "int list"
  | IBoolList "bool list"

text \<open>\<^verbatim>\<open>slice(None)\<close>, the full slice.\<close>

definition full_slice :: item where
  "full_slice = ISlice None None None"

section \<open>Python slices and ranges\<close>

text \<open>
  \<^verbatim>\<open>slice.indices(len)\<close> of the Python data model: the step defaults to 1 and must not
  be 0; start and stop are counted from the end when negative and clipped to the bounds
  that the sign of the step selects.
\<close>

definition slice_indices ::
  "int option \<Rightarrow> int option \<Rightarrow> int option \<Rightarrow> int \<Rightarrow> exn + (int \<times> int \<times> int)" where
  "slice_indices start stop step len =
     (let st = (case step of None \<Rightarrow> 1 | Some s \<Rightarrow> s) in
      if st = 0 then Inl (ValueError ''slice step cannot be zero'')
      else
        let lower = (if st < 0 then - 1 else 0);
            upper = (if st < 0 then len - 1 else len);
            s = (case start of
                   None \<Rightarrow> (if st < 0 then upper else lower)
                 | Some a \<Rightarrow> (if a < 0 then max (a + len) lower else min a upper));
            e = (case stop of
                   None \<Rightarrow> (if st < 0 then lower else upper)
                 | Some b \<Rightarrow> (if b < 0 then max (b + len) lower else min b upper))
        in Inr (s, e, st))"

text \<open>\<^verbatim>\<open>len(range(start, stop, step))\<close> for a step other than 0.\<close>

definition range_len :: "int \<Rightarrow> int \<Rightarrow> int \<Rightarrow> nat" where
  "range_len start stop step =
     (if 0 < step
      then (if start < stop then nat ((stop - start - 1) div step + 1) else 0)
      else (if stop < start then nat ((start - stop - 1) div (- step) + 1) else 0))"

section \<open>Shape inference: \<^verbatim>\<open>_getitem_batch_size\<close>\<close>

text \<open>\<^verbatim>\<open>isinstance(x, torch.Tensor)\<close>.\<close>

fun is_tensor :: "item \<Rightarrow> bool" where
  "is_tensor (IBoolTensor b) = True"
| "is_tensor (IIntTensor l) = True"
| "is_tensor x = False"

text \<open>\<^verbatim>\<open>x.shape\<close> of a (one-dimensional) tensor element.\<close>

fun tensor_shape :: "item \<Rightarrow> nat list" where
  "tensor_shape (IBoolTensor b) = [length b]"
| "tensor_shape (IIntTensor l) = [length l]"
| "tensor_shape x = []"

text \<open>\<^verbatim>\<open>mask.sum()\<close>: the number of true entries of a boolean tensor.\<close>

definition bool_sum :: "bool list \<Rightarrow> nat" where
  "bool_sum b = length (filter (\<lambda>x. x) b)"

text \<open>
  The general loop of \<^verbatim>\<open>_getitem_batch_size\<close> (\<^verbatim>\<open>for _item in items\<close>). A list, a tensor
  or an \<^verbatim>\<open>np.ndarray\<close> takes a dimension and contributes \<^verbatim>\<open>_item.sum()\<close> when it is a
  \<^verbatim>\<open>torch.Tensor\<close> of \<^verbatim>\<open>dtype\<close> \<^verbatim>\<open>torch.bool\<close> and \<^verbatim>\<open>len(_item)\<close> otherwise, so also for a
  boolean \<^verbatim>\<open>np.ndarray\<close> and for a list of booleans. \<open>iter_bs\<close> is what
  the iterator over the shape has not yet yielded and \<open>bs\<close> the sizes collected so far.
  \<^verbatim>\<open>next(iter_bs)\<close> on an exhausted iterator raises \<^verbatim>\<open>StopIteration\<close>, which only the
  branch for a number catches and turns into a \<^verbatim>\<open>RuntimeError\<close>; \<^verbatim>\<open>None\<close> takes no
  dimension. After the loop the remaining dimensions are appended.
\<close>

fun batch_size_loop :: "item list \<Rightarrow> nat list \<Rightarrow> nat list \<Rightarrow> exn + nat list" where
  "batch_size_loop [] iter_bs bs = Inr (bs @ iter_bs)"
| "batch_size_loop (ISlice a b c # rest) [] bs = Inl StopIteration"
| "batch_size_loop (ISlice a b c # rest) (batch # iter_bs) bs =
     (case slice_indices a b c (int batch) of
        Inl e \<Rightarrow> Inl e
      | Inr (s, e, st) \<Rightarrow> batch_size_loop rest iter_bs (bs @ [range_len s e st]))"
| "batch_size_loop (IList l # rest) [] bs = Inl StopIteration"
| "batch_size_loop (IList l # rest) (batch # iter_bs) bs =
     batch_size_loop rest iter_bs (bs @ [length l])"
| "batch_size_loop (IIntTensor l # rest) [] bs = Inl StopIteration"
| "batch_size_loop (IIntTensor l # rest) (batch # iter_bs) bs =
     batch_size_loop rest iter_bs (bs @ [length l])"
| "batch_size_loop (IBoolTensor m # rest) [] bs = Inl StopIteration"
| "batch_size_loop (IBoolTensor m # rest) (batch # iter_bs) bs =
     batch_size_loop rest iter_bs (bs @ [bool_sum m])"
| "batch_size_loop (IBoolArray m # rest) [] bs = Inl StopIteration"
| "batch_size_loop (IBoolArray m # rest) (batch # iter_bs) bs =
     batch_size_loop rest iter_bs (bs @ [length m])"
| "batch_size_loop (IIntArray l # rest) [] bs = Inl StopIteration"
| "batch_size_loop (IIntArray l # rest) (batch # iter_bs) bs =
     batch_size_loop rest iter_bs (bs @ [length l])"
| "batch_size_loop (IBoolList m # rest) [] bs = Inl StopIteration"
| "batch_size_loop (IBoolList m # rest) (batch # iter_bs) bs =
     batch_size_loop rest iter_bs (bs @ [length m])"
| "batch_size_loop (INone # rest) iter_bs bs = batch_size_loop rest iter_bs (bs @ [1])"
| "batch_size_loop (IInt i # rest) [] bs =
     Inl (RuntimeError ''The shape is incompatible with the index.'')"
| "batch_size_loop (IInt i # rest) (batch # iter_bs) bs = batch_size_loop rest iter_bs bs"
| "batch_size_loop (x # rest) iter_bs bs = Inl NotImplementedError"

text \<open>
  The branch for a tuple whose elements are all tensors, as many as the shape has
  dimensions: the shape of the first one, provided the others have the same shape.
  \<^verbatim>\<open>items[0]\<close> on the empty tuple raises \<^verbatim>\<open>IndexError\<close>.
\<close>

definition all_tensor_shape :: "item list \<Rightarrow> exn + nat list" where
  "all_tensor_shape items =
     (case items of
        [] \<Rightarrow> Inl IndexError
      | x # xs \<Rightarrow>
          (if list_all (\<lambda>y. tensor_shape y = tensor_shape x) xs
           then Inr (tensor_shape x)
           else Inl (RuntimeError ''all tensor indices must have the same shape'')))"

text \<open>
  What follows the simple cases: a non-tuple is wrapped into a tuple of one element, then
  either the all-tensor branch or the general loop runs.
\<close>

definition batch_size_tuple :: "nat list \<Rightarrow> item list \<Rightarrow> exn + nat list" where
  "batch_size_tuple shape items =
     (if list_all is_tensor items \<and> length items = length shape
      then all_tensor_shape items
      else batch_size_loop items shape [])"

text \<open>
  The simple cases, tried in the order of the source on the index after a tuple of
  length one has been replaced by its only element: an integer, a boolean tensor (of
  \<^verbatim>\<open>ndimension()\<close> 1 here), a tensor or an \<^verbatim>\<open>np.ndarray\<close> of at most one dimension or a
  list. The test for booleans is made on a \<^verbatim>\<open>torch.Tensor\<close> only: a boolean \<^verbatim>\<open>np.ndarray\<close>
  and a list of booleans are counted by their length.
\<close>

fun batch_size_simple :: "nat list \<Rightarrow> item \<Rightarrow> exn + nat list" where
  "batch_size_simple shape (IInt i) = Inr (drop 1 shape)"
| "batch_size_simple shape (IBoolTensor m) = Inr (bool_sum m # drop 1 shape)"
| "batch_size_simple shape (IIntTensor l) =
     (if length l \<noteq> 0 then Inr (length l # drop 1 shape) else Inr (drop 1 shape))"
| "batch_size_simple shape (IList l) =
     (if length l \<noteq> 0 then Inr (length l # drop 1 shape) else Inr (drop 1 shape))"
| "batch_size_simple shape (IBoolArray m) =
     (if length m \<noteq> 0 then Inr (length m # drop 1 shape) else Inr (drop 1 shape))"
| "batch_size_simple shape (IIntArray l) =
     (if length l \<noteq> 0 then Inr (length l # drop 1 shape) else Inr (drop 1 shape))"
| "batch_size_simple shape (IBoolList m) =
     (if length m \<noteq> 0 then Inr (length m # drop 1 shape) else Inr (drop 1 shape))"
| "batch_size_simple shape (ITuple items) = batch_size_tuple shape items"
| "batch_size_simple shape x = batch_size_tuple shape [x]"

fun unwrap_single :: "item \<Rightarrow> item" where
  "unwrap_single (ITuple [x]) = x"
| "unwrap_single x = x"

definition getitem_batch_size :: "nat list \<Rightarrow> item \<Rightarrow> exn + nat list" where
  "getitem_batch_size shape items = batch_size_simple shape (unwrap_single items)"

section \<open>Ellipsis expansion: \<^verbatim>\<open>convert_ellipsis_to_idx\<close>\<close>

text \<open>The argument \<^verbatim>\<open>idx: Union[Tuple, Ellipsis]\<close>.\<close>

datatype ellipsis_index = BareEllipsis | IndexTuple "item list"

text \<open>
  The loop over \<^verbatim>\<open>enumerate(idx)\<close>, from position \<open>i\<close> on, with the state
  \<^verbatim>\<open>(start_pos, after_ellipsis_length)\<close>.
\<close>

fun scan_ellipsis ::
  "nat \<Rightarrow> item list \<Rightarrow> nat option \<Rightarrow> nat \<Rightarrow> exn + (nat option \<times> nat)" where
  "scan_ellipsis i [] start_pos after = Inr (start_pos, after)"
| "scan_ellipsis i (x # xs) start_pos after =
     (if x = IEllipsis
      then (case start_pos of
              Some p \<Rightarrow> Inl (RuntimeError ''An index can only have one ellipsis at most.'')
            | None \<Rightarrow> scan_ellipsis (Suc i) xs (Some i) after)
      else (if start_pos \<noteq> None
            then scan_ellipsis (Suc i) xs start_pos (Suc after)
            else scan_ellipsis (Suc i) xs start_pos after))"

text \<open>
  \<^verbatim>\<open>num_dims - after_ellipsis_length - before_ellipsis_length\<close> with
  \<^verbatim>\<open>before_ellipsis_length = start_pos\<close>: subtracting \<^verbatim>\<open>None\<close> from an integer raises
  \<^verbatim>\<open>TypeError\<close>. A tuple multiplied by a negative number is empty.
\<close>

definition convert_ellipsis_to_idx :: "ellipsis_index \<Rightarrow> nat list \<Rightarrow> exn + item list" where
  "convert_ellipsis_to_idx idx0 batch_size =
     (let num_dims = length batch_size;
          idx = (case idx0 of BareEllipsis \<Rightarrow> [IEllipsis] | IndexTuple xs \<Rightarrow> xs);
          num_ellipsis = length (filter (\<lambda>x. x = IEllipsis) idx)
      in if int num_dims < int (length idx) - int num_ellipsis
         then Inl (RuntimeError ''Not enough dimensions in TensorDict for index provided.'')
         else
           (case scan_ellipsis 0 idx None 0 of
              Inl e \<Rightarrow> Inl e
            | Inr (None, after_ellipsis_length) \<Rightarrow> Inl TypeError
            | Inr (Some start_pos, after_ellipsis_length) \<Rightarrow>
                (let ellipsis_length = int num_dims - int after_ellipsis_length - int start_pos;
                     ellipsis_start = int start_pos;
                     ellipsis_end = int start_pos + ellipsis_length;
                     new_index = take start_pos idx
                       @ replicate (nat (ellipsis_end - ellipsis_start)) full_slice
                       @ take after_ellipsis_length (drop (start_pos + 1) idx)
                 in if length new_index \<noteq> num_dims
                    then Inl (RuntimeError ''The new index is incompatible with the dimensions of the batch size.'')
                    else Inr new_index)))"

section \<open>Ragged fields: \<^verbatim>\<open>KeyedJaggedTensor\<close>\<close>

text \<open>
  Modelled from the spec: the ragged field. \<^verbatim>\<open>KeyedJaggedTensor\<close> is a class of the
  library \<^verbatim>\<open>torchrec\<close> and not part of the sources; the functions below read it through
  \<^verbatim>\<open>keys()\<close>, \<^verbatim>\<open>lengths()\<close>, \<^verbatim>\<open>offsets()\<close>, \<^verbatim>\<open>_values\<close> and \<^verbatim>\<open>_weights\<close>. Following the data
  model of the specification a field has a flat buffer of values, a flat buffer of
  weights, the list of its keys and, flattened row-major over keys and batch elements,
  the lengths and the offsets into the buffers. Lengths and offsets are counts and
  positions, hence natural numbers.
\<close>

record ('v, 'w) kjt =
  keys :: "string list"
  "values" :: "'v list"
  weights :: "'w list"
  lengths :: "nat list"
  offsets :: "nat list"

text \<open>\<^verbatim>\<open>t.cumsum(0)\<close> of a one-dimensional tensor.\<close>

fun cumsum_from :: "nat \<Rightarrow> nat list \<Rightarrow> nat list" where
  "cumsum_from acc [] = []"
| "cumsum_from acc (x # xs) = (acc + x) # cumsum_from (acc + x) xs"

definition cumsum :: "nat list \<Rightarrow> nat list" where
  "cumsum xs = cumsum_from 0 xs"

text \<open>
  Modelled from the spec: the constructor call \<^verbatim>\<open>KeyedJaggedTensor(values=, keys=,
  weights=, lengths=)\<close>. The offsets, which the library derives from the lengths when
  asked for them, are the cumulative sums of the lengths prefixed by 0.
\<close>

definition KeyedJaggedTensor ::
  "'v list \<Rightarrow> string list \<Rightarrow> 'w list \<Rightarrow> nat list \<Rightarrow> ('v, 'w) kjt" where
  "KeyedJaggedTensor vs ks ws ls =
     \<lparr>keys = ks, values = vs, weights = ws, lengths = ls, offsets = 0 # cumsum ls\<rparr>"

text \<open>
  The layout invariant of a ragged field with \<open>K\<close> keys and batch size \<open>N\<close>: there are
  \<open>K * N\<close> lengths, the \<open>K * N + 1\<close> offsets are the cumulative sums of the flattened
  lengths prefixed by 0, and the lengths add up to the number of values and to the number
  of weights. The batch size is \<^verbatim>\<open>len(lengths) // len(keys)\<close> as in \<^verbatim>\<open>_shape\<close>.
\<close>

definition batch_size_of :: "('v, 'w) kjt \<Rightarrow> nat" where
  "batch_size_of t = length (lengths t) div length (keys t)"

definition layout_invariant :: "('v, 'w) kjt \<Rightarrow> bool" where
  "layout_invariant t =
     (0 < length (keys t)
      \<and> length (lengths t) = length (keys t) * batch_size_of t
      \<and> length (offsets t) = length (keys t) * batch_size_of t + 1
      \<and> offsets t = 0 # cumsum (lengths t)
      \<and> sum_list (lengths t) = length (values t)
      \<and> length (values t) = length (weights t))"

subsection \<open>Tensor operations\<close>

text \<open>Sequencing of steps that may raise.\<close>

definition on_ok :: "exn + 'a \<Rightarrow> ('a \<Rightarrow> exn + 'b) \<Rightarrow> exn + 'b" where
  "on_ok m f = (case m of Inl e \<Rightarrow> Inl e | Inr x \<Rightarrow> f x)"

text \<open>
  \<^verbatim>\<open>t.view(K, N)\<close> of a one-dimensional tensor, as the list of its \<open>K\<close> rows of \<open>N\<close>
  elements each; a \<^verbatim>\<open>RuntimeError\<close> when \<open>t\<close> does not have \<open>K * N\<close> elements.
\<close>

definition rows_of :: "nat \<Rightarrow> nat \<Rightarrow> 'a list \<Rightarrow> 'a list list" where
  "rows_of K N xs = map (\<lambda>k. take N (drop (k * N) xs)) [0..<K]"

definition view :: "nat \<Rightarrow> nat \<Rightarrow> 'a list \<Rightarrow> exn + 'a list list" where
  "view K N xs =
     (if length xs = K * N
      then Inr (rows_of K N xs)
      else Inl (RuntimeError ''shape is invalid for input size''))"

text \<open>\<^verbatim>\<open>t[-1]\<close> of a one-dimensional tensor.\<close>

definition last_elem :: "'a list \<Rightarrow> exn + 'a" where
  "last_elem xs = (if xs = [] then Inl IndexError else Inr (last xs))"

text \<open>
  An integer of an index list against a dimension of size \<open>n\<close>: negative values count
  from the end, a value outside \<open>[-n, n)\<close> raises \<^verbatim>\<open>IndexError\<close>.
\<close>

definition norm_index :: "nat \<Rightarrow> int \<Rightarrow> exn + nat" where
  "norm_index n i =
     (if - int n \<le> i \<and> i < int n
      then Inr (nat (if i < 0 then i + int n else i))
      else Inl IndexError)"

fun norm_cols :: "nat \<Rightarrow> int list \<Rightarrow> exn + nat list" where
  "norm_cols n [] = Inr []"
| "norm_cols n (i # is) =
     on_ok (norm_index n i) (\<lambda>c. on_ok (norm_cols n is) (\<lambda>cs. Inr (c # cs)))"

text \<open>\<^verbatim>\<open>t[:, index]\<close> for a list of column positions.\<close>

definition select_columns :: "'a list list \<Rightarrow> nat list \<Rightarrow> 'a list list" where
  "select_columns rows cols = map (\<lambda>r. map (\<lambda>c. r ! c) cols) rows"

definition getitem_columns :: "nat \<Rightarrow> 'a list list \<Rightarrow> int list \<Rightarrow> exn + 'a list list" where
  "getitem_columns N rows index =
     on_ok (norm_cols N index) (\<lambda>cols. Inr (select_columns rows cols))"

text \<open>
  A value of one dimension assigned to \<open>n\<close> positions is taken as it is when it has \<open>n\<close>
  elements and repeated when it has one element; any other size is a shape mismatch.
\<close>

definition broadcast_to :: "nat \<Rightarrow> 'a list \<Rightarrow> exn + 'a list" where
  "broadcast_to n v =
     (if length v = n then Inr v
      else if length v = 1 then Inr (replicate n (hd v))
      else Inl (RuntimeError ''shape mismatch''))"

text \<open>Writing values at positions, one after the other.\<close>

fun put_all :: "nat list \<Rightarrow> 'a list \<Rightarrow> 'a list \<Rightarrow> 'a list" where
  "put_all (p # ps) (x # xs) t = put_all ps xs (t[p := x])"
| "put_all ps xs t = t"

text \<open>
  \<^verbatim>\<open>t[:, index] = value\<close> for a list of column positions and a value with as many rows
  as \<open>t\<close>: the value is broadcast along the columns, then the positions are checked
  against the \<open>N\<close> columns, then every row is written. Where a position occurs twice the
  later write stands.
\<close>

fun broadcast_rows :: "nat \<Rightarrow> 'a list list \<Rightarrow> exn + 'a list list" where
  "broadcast_rows n [] = Inr []"
| "broadcast_rows n (v # vs) =
     on_ok (broadcast_to n v) (\<lambda>w. on_ok (broadcast_rows n vs) (\<lambda>ws. Inr (w # ws)))"

definition setitem_columns ::
  "nat \<Rightarrow> 'a list list \<Rightarrow> int list \<Rightarrow> 'a list list \<Rightarrow> exn + 'a list list" where
  "setitem_columns N rows index vrows =
     on_ok (broadcast_rows (length index) vrows) (\<lambda>ws.
     on_ok (norm_cols N index) (\<lambda>cols.
       Inr (map (\<lambda>(r, w). put_all cols w r) (zip rows ws))))"

text \<open>
  The masks over \<^verbatim>\<open>full_index = torch.arange(T).view(1, 1, -1)\<close>: position \<open>p\<close> is selected
  by \<^verbatim>\<open>sel.any(0).any(0)\<close> when it lies in \<open>[a, b)\<close> for some pair of a start offset \<open>a\<close>
  and the end offset \<open>b\<close> at the same place, and by \<^verbatim>\<open>(~sel).all(0).all(0)\<close> when it lies
  in none.
\<close>

definition sel_any :: "nat list list \<Rightarrow> nat list list \<Rightarrow> nat \<Rightarrow> bool" where
  "sel_any o1 o2 p = list_ex (\<lambda>(a, b). a \<le> p \<and> p < b) (zip (concat o1) (concat o2))"

definition sel_none :: "nat list list \<Rightarrow> nat list list \<Rightarrow> nat \<Rightarrow> bool" where
  "sel_none o1 o2 p = list_all (\<lambda>(a, b). \<not> (a \<le> p \<and> p < b)) (zip (concat o1) (concat o2))"

text \<open>
  \<^verbatim>\<open>full_index.squeeze()[sel]\<close>. \<^verbatim>\<open>squeeze()\<close> removes every dimension of size 1: for
  \<open>T = 1\<close> the tensor of shape \<open>(1, 1, 1)\<close> becomes a tensor without dimensions, which the
  mask of one dimension cannot index (\<^verbatim>\<open>IndexError\<close>: too many indices). Otherwise the
  result is the positions the mask selects, in ascending order.
\<close>

definition squeeze_select :: "nat \<Rightarrow> (nat \<Rightarrow> bool) \<Rightarrow> exn + nat list" where
  "squeeze_select T sel = (if T = 1 then Inl IndexError else Inr (filter sel [0..<T]))"

text \<open>\<^verbatim>\<open>t[index]\<close> for a tensor of positions.\<close>

definition gather :: "'a list \<Rightarrow> nat list \<Rightarrow> exn + 'a list" where
  "gather xs ps =
     (if list_all (\<lambda>p. p < length xs) ps then Inr (map (\<lambda>p. xs ! p) ps) else Inl IndexError)"

text \<open>
  \<^verbatim>\<open>t[index] = value\<close> for a tensor of positions: the value must broadcast to the number
  of positions, and every position must lie in \<open>t\<close>.
\<close>

definition index_put :: "'a list \<Rightarrow> nat list \<Rightarrow> 'a list \<Rightarrow> exn + 'a list" where
  "index_put t ps v =
     on_ok (broadcast_to (length ps) v) (\<lambda>w.
       if list_all (\<lambda>p. p < length t) ps then Inr (put_all ps w t) else Inl IndexError)"

text \<open>
  \<^verbatim>\<open>torch.empty(n)\<close>: \<open>n\<close> elements of whatever the memory holds, given by \<open>junk\<close>.
\<close>

definition empty :: "(nat \<Rightarrow> 'a) \<Rightarrow> nat \<Rightarrow> 'a list" where
  "empty junk n = map junk [0..<n]"

subsection \<open>Reading: \<^verbatim>\<open>index_keyedjaggedtensor\<close>\<close>

text \<open>
  The batch index of a read: an integer, or a list of integer positions (a slice, a range
  or an integer tensor stands for the list of the positions it selects).
\<close>

datatype batch_index = IntIndex int | ListIndex "int list"

text \<open>The message of the error raised for an integer index.\<close>

definition integer_index_message :: string where
  "integer_index_message = ''Indexing KeyedJaggedTensor instances with an integer is prohibited, as this would result in a KeyedJaggedTensor without batch size. If you want to get a single element from a KeyedJaggedTensor, call `index_keyedjaggedtensor(kjt, torch.tensor([index]))` instead.''"

text \<open>
  \<open>has_torchrec\<close> is the module constant \<^verbatim>\<open>_has_torchrec\<close>, true when the library of the
  ragged fields could be imported.
\<close>

definition index_keyedjaggedtensor ::
  "bool \<Rightarrow> ('v, 'w) kjt \<Rightarrow> batch_index \<Rightarrow> exn + ('v, 'w) kjt" where
  "index_keyedjaggedtensor has_torchrec t index =
     (if \<not> has_torchrec then Inl ImportError
      else case index of
        IntIndex i \<Rightarrow>
          Inl (ValueError integer_index_message)
      | ListIndex idx \<Rightarrow>
          if length (keys t) = 0 then Inl ZeroDivisionError
          else
            let K = length (keys t);
                numel = length (lengths t) div K
            in
            on_ok (view K numel (butlast (offsets t))) (\<lambda>v1.
            on_ok (getitem_columns numel v1 idx) (\<lambda>offsets1.
            on_ok (view K numel (drop 1 (offsets t))) (\<lambda>v2.
            on_ok (getitem_columns numel v2 idx) (\<lambda>offsets2.
            on_ok (view K numel (lengths t)) (\<lambda>vl.
            on_ok (getitem_columns numel vl idx) (\<lambda>ls.
            on_ok (last_elem (offsets t)) (\<lambda>T.
            on_ok (squeeze_select T (sel_any offsets1 offsets2)) (\<lambda>full_index.
            on_ok (gather (values t) full_index) (\<lambda>vs.
            on_ok (gather (weights t) full_index) (\<lambda>ws.
              Inr (KeyedJaggedTensor vs (keys t) ws (concat ls)))))))))))))"

subsection \<open>Writing: \<^verbatim>\<open>setitem_keyedjaggedtensor\<close>\<close>

text \<open>
  The new contents of the target (the local \<^verbatim>\<open>kjt\<close> of the source), from the contents
  \<open>orig\<close> of the target and \<open>other\<close> of the replacement. The batch index is a list of
  integer positions, as the annotation of the parameter has it (a slice, a range or an
  integer tensor stands for the list of the positions it selects). \<open>junk_v\<close> and
  \<open>junk_w\<close> are what the two buffers obtained from \<^verbatim>\<open>torch.empty\<close> hold before they are
  written.
\<close>

definition setitem_contents ::
  "(nat \<Rightarrow> 'v) \<Rightarrow> (nat \<Rightarrow> 'w) \<Rightarrow> ('v, 'w) kjt \<Rightarrow> int list \<Rightarrow> ('v, 'w) kjt
     \<Rightarrow> exn + ('v, 'w) kjt" where
  "setitem_contents junk_v junk_w orig index other =
     (if length (keys orig) = 0 then Inl ZeroDivisionError
      else if length (keys other) = 0 then Inl ZeroDivisionError
      else
        let K = length (keys orig);
            orig_tensor_numel = length (lengths orig) div K;
            other_numel = length (lengths other) div length (keys other)
        in
        if keys other \<noteq> keys orig
        then Inl (KeyError ''Mismatch in orig_tensor and other keys.'')
        else
          on_ok (view K orig_tensor_numel (lengths orig)) (\<lambda>rows.
          on_ok (view K other_numel (lengths other)) (\<lambda>vrows.
          on_ok (setitem_columns orig_tensor_numel rows index vrows) (\<lambda>rows_out.
          let lengths_out = concat rows_out in
          on_ok (last_elem (offsets orig)) (\<lambda>T.
          on_ok (view K orig_tensor_numel (butlast (offsets orig))) (\<lambda>v1.
          on_ok (getitem_columns orig_tensor_numel v1 index) (\<lambda>o1.
          on_ok (view K orig_tensor_numel (drop 1 (offsets orig))) (\<lambda>v2.
          on_ok (getitem_columns orig_tensor_numel v2 index) (\<lambda>o2.
          on_ok (squeeze_select T (sel_none o1 o2)) (\<lambda>index_to_keep.
          on_ok (gather (values orig) index_to_keep) (\<lambda>values_to_keep.
          on_ok (gather (weights orig) index_to_keep) (\<lambda>weights_to_keep.
          let new_offsets = cumsum (map (\<lambda>x. x * 0) (take 1 lengths_out) @ lengths_out) in
          on_ok (last_elem new_offsets) (\<lambda>T'.
          on_ok (view K orig_tensor_numel (butlast new_offsets)) (\<lambda>w1.
          on_ok (getitem_columns orig_tensor_numel w1 index) (\<lambda>n1.
          on_ok (view K orig_tensor_numel (drop 1 new_offsets)) (\<lambda>w2.
          on_ok (getitem_columns orig_tensor_numel w2 index) (\<lambda>n2.
          on_ok (squeeze_select T' (sel_any n1 n2)) (\<lambda>new_index_new_elts.
          on_ok (squeeze_select T' (sel_none n1 n2)) (\<lambda>new_index_to_keep.
          let values_numel = length values_to_keep + length (values other) in
          on_ok (index_put (empty junk_v values_numel) new_index_to_keep values_to_keep) (\<lambda>t1.
          on_ok (index_put t1 new_index_new_elts (values other)) (\<lambda>tensor.
          on_ok (index_put (empty junk_w values_numel) new_index_to_keep weights_to_keep) (\<lambda>u1.
          on_ok (index_put u1 new_index_new_elts (weights other)) (\<lambda>tensor_weights.
            Inr (KeyedJaggedTensor tensor (keys orig) tensor_weights lengths_out)
          )))))))))))))))))))))))"

text \<open>
  The objects are held in a store, from references to contents. The attributes of the new
  field replace those of the target object, and the reference that was passed in is
  returned; when an exception is raised the store is as it was.
\<close>

type_synonym ('v, 'w) store = "nat \<Rightarrow> ('v, 'w) kjt"

definition setitem_keyedjaggedtensor ::
  "(nat \<Rightarrow> 'v) \<Rightarrow> (nat \<Rightarrow> 'w) \<Rightarrow> ('v, 'w) store \<Rightarrow> nat \<Rightarrow> int list \<Rightarrow> nat
     \<Rightarrow> (exn + nat) \<times> ('v, 'w) store" where
  "setitem_keyedjaggedtensor junk_v junk_w st orig_tensor index other =
     (case setitem_contents junk_v junk_w (st orig_tensor) index (st other) of
        Inl e \<Rightarrow> (Inl e, st)
      | Inr kjt \<Rightarrow> (Inr orig_tensor, st(orig_tensor := kjt)))"

subsection \<open>Notions for the proofs\<close>

text \<open>
  The places of the flattened \<open>(K, N)\<close> tensor that the columns \<open>cols\<close> select, row by
  row, and the rows after \<^verbatim>\<open>t[:, index] = value\<close>.
\<close>

definition places :: "nat \<Rightarrow> nat \<Rightarrow> nat list \<Rightarrow> nat list" where
  "places K N cols = concat (map (\<lambda>k. map (\<lambda>c. k * N + c) cols) [0..<K])"

definition put_columns :: "nat list \<Rightarrow> 'a list list \<Rightarrow> 'a list list \<Rightarrow> 'a list list" where
  "put_columns cols rows ws = map (\<lambda>(r, w). put_all cols w r) (zip rows ws)"

text \<open>
  With the offsets \<open>off\<close>, position \<open>p\<close> of the flat buffers belongs to one of the places
  \<open>S\<close> when it lies between the offset of that place and the next offset.
\<close>

definition selected :: "nat list \<Rightarrow> nat list \<Rightarrow> nat \<Rightarrow> bool" where
  "selected off S p = list_ex (\<lambda>s. off ! s \<le> p \<and> p < off ! Suc s) S"

text \<open>
  The lengths after a write at the columns \<open>cols\<close>, and a buffer after it: the elements
  \<open>xs\<close> of the target outside the places \<open>S\<close> are kept and the elements \<open>ys\<close> of the
  replacement fill the places, at the positions the new offsets \<open>off'\<close> give.
\<close>

definition lengths_out_of :: "('v, 'w) kjt \<Rightarrow> nat list \<Rightarrow> ('v, 'w) kjt \<Rightarrow> nat list" where
  "lengths_out_of orig cols other =
     concat (put_columns cols
       (rows_of (length (keys orig)) (batch_size_of orig) (lengths orig))
       (rows_of (length (keys orig)) (length cols) (lengths other)))"

definition written ::
  "(nat \<Rightarrow> 'a) \<Rightarrow> nat list \<Rightarrow> nat list \<Rightarrow> 'a list \<Rightarrow> nat list \<Rightarrow> nat list \<Rightarrow> 'a list
     \<Rightarrow> 'a list" where
  "written junk off S xs off' lo ys =
     put_all (filter (selected off' S) [0..<sum_list lo]) ys
       (put_all (filter (\<lambda>p. \<not> selected off' S p) [0..<sum_list lo])
          (map (\<lambda>p. xs ! p) (filter (\<lambda>p. \<not> selected off S p) [0..<length xs]))
          (empty junk (length (filter (\<lambda>p. \<not> selected off S p) [0..<length xs]) + length ys)))"

subsection \<open>The layout invariant as the specification words it\<close>

text \<open>
  The specification says of the offsets that \<^verbatim>\<open>offsets[:, i]\<close> are the cumulative sums of
  \<^verbatim>\<open>lengths[:, i]\<close> prefixed by 0: column \<open>i\<close> of the offsets, read as the start offsets
  (all but the last) or as the end offsets (all but the first) in the shape \<open>(K, N)\<close>, is
  the running sum of column \<open>i\<close> of the lengths.
\<close>

definition column :: "'a list list \<Rightarrow> nat \<Rightarrow> 'a list" where
  "column rows i = map (\<lambda>r. r ! i) rows"

definition offsets_columnwise :: "('v, 'w) kjt \<Rightarrow> bool" where
  "offsets_columnwise t =
     (let K = length (keys t); N = batch_size_of t in
      list_all (\<lambda>i. column (rows_of K N (butlast (offsets t))) i
                       = butlast (0 # cumsum (column (rows_of K N (lengths t)) i))
                  \<or> column (rows_of K N (drop 1 (offsets t))) i
                       = cumsum (column (rows_of K N (lengths t)) i))
        [0..<N])"

subsection \<open>Fields of the examples\<close>

text \<open>
  A field with the keys \<open>a\<close> and \<open>b\<close> and batch size 4; one with the same shape that
  holds a single value; a replacement for two rows; fields with other keys and with no
  key; a field with one key and two rows and a replacement for one row; and a store with
  a field under reference 0 and another under every other reference.
\<close>

definition field_ab :: "(int, int) kjt" where
  "field_ab = KeyedJaggedTensor [10, 11, 12, 13, 14, 15, 16, 17] [''a'', ''b'']
     [1, 2, 3, 4, 5, 6, 7, 8] [1, 2, 0, 1, 2, 0, 1, 1]"

definition field_one :: "(int, int) kjt" where
  "field_one = KeyedJaggedTensor [7] [''a'', ''b''] [1] [0, 1, 0, 0, 0, 0, 0, 0]"

definition field_rows :: "(int, int) kjt" where
  "field_rows = KeyedJaggedTensor [30, 31, 32] [''a'', ''b''] [9, 9, 9] [1, 0, 2, 0]"

definition field_ac :: "(int, int) kjt" where
  "field_ac = KeyedJaggedTensor [20, 21] [''a'', ''c''] [1, 1] [1, 0, 0, 1]"

definition field_no_keys :: "(int, int) kjt" where
  "field_no_keys = KeyedJaggedTensor [] [] [] []"

definition field_pair :: "(int, int) kjt" where
  "field_pair = KeyedJaggedTensor [7, 8] [''a''] [1, 1] [1, 1]"

definition field_single :: "(int, int) kjt" where
  "field_single = KeyedJaggedTensor [5] [''a''] [3] [1]"

definition two_fields :: "('v, 'w) kjt \<Rightarrow> ('v, 'w) kjt \<Rightarrow> ('v, 'w) store" where
  "two_fields a b = (\<lambda>ref. if ref = 0 then a else b)"

section \<open>Parameters of a normal distribution: \<^verbatim>\<open>NormalParamWrapper\<close>\<close>

text \<open>
  A tensor of shape \<open>(..., n)\<close>: the size \<open>n\<close> of its last dimension and the list of its
  vectors along that dimension.
\<close>

record 'a tensor =
  last_dim :: nat
  vecs :: "'a list list"





















definition float32_1e_4 :: real where
  "float32_1e_4 = 13743895 / 2 ^ 37"


section \<open>Reference: the shape of an indexed probe\<close>

text \<open>
  The specification compares \<^verbatim>\<open>_getitem_batch_size(S, idx)\<close> with \<^verbatim>\<open>probe[idx].shape\<close>, where
  \<^verbatim>\<open>probe\<close> is a zero-filled tensor of shape \<open>S\<close>. The indexing of the tensor library is not
  part of the sources; what follows is a reference for the shape it produces, for index
  tuples made of integers, slices, \<^verbatim>\<open>None\<close>, integer positions (a list, a tensor or an
  \<^verbatim>\<open>np.ndarray\<close> of integers) and boolean masks (a tensor, an \<^verbatim>\<open>np.ndarray\<close> or a list of
  booleans), all of one dimension. It is the second term of the comparison and no part of
  the program.

  A slice of a tensor: the step has to be positive; a negative bound counts from the end,
  and both bounds are clamped to the extent of the dimension.
\<close>

definition torch_slice_len :: "int option \<Rightarrow> int option \<Rightarrow> int option \<Rightarrow> nat \<Rightarrow> exn + nat" where
  "torch_slice_len start stop step extent =
     (let st = (case step of None \<Rightarrow> 1 | Some s \<Rightarrow> s) in
      if st \<le> 0 then Inl (ValueError ''step must be greater than zero'')
      else
        let n = int extent;
            s0 = (case start of None \<Rightarrow> 0 | Some a \<Rightarrow> (if a < 0 then a + n else a));
            s = (if s0 < 0 then 0 else if n \<le> s0 then n else s0);
            e0 = (case stop of None \<Rightarrow> n | Some b \<Rightarrow> (if b < 0 then b + n else b));
            e = (if e0 < s then s else if n \<le> e0 then n else e0)
        in Inr (nat ((e - s + st - 1) div st)))"

text \<open>
  Every element of the result stems from a dimension that a slice, \<^verbatim>\<open>None\<close> or no index
  at all has left in place (\<open>Basic\<close>), or from integer positions or a mask (\<open>Adv\<close>).
\<close>

datatype entry = Basic nat | Adv nat

fun size_of :: "entry \<Rightarrow> nat" where
  "size_of (Basic n) = n"
| "size_of (Adv n) = n"

fun is_adv :: "entry \<Rightarrow> bool" where
  "is_adv (Adv n) = True"
| "is_adv (Basic n) = False"

text \<open>
  The index elements are matched with the dimensions from the left. An integer or an
  integer position has to lie in \<open>[-n, n)\<close> and a mask has to be as long as its dimension;
  an integer removes its dimension, \<^verbatim>\<open>None\<close> inserts a dimension of size one and takes
  none; integer positions contribute their number and a mask the number of its true
  entries, whether it is a tensor, an \<^verbatim>\<open>np.ndarray\<close> or a list; the dimensions that no
  element has taken follow unchanged. More elements than dimensions raise \<^verbatim>\<open>IndexError\<close>.
  Elements of other kinds are outside this reference.
\<close>

fun probe_walk :: "item list \<Rightarrow> nat list \<Rightarrow> exn + entry list" where
  "probe_walk [] shape = Inr (map Basic shape)"
| "probe_walk (INone # rest) shape =
     on_ok (probe_walk rest shape) (\<lambda>es. Inr (Basic 1 # es))"
| "probe_walk (IInt i # rest) (extent # shape) =
     (if - int extent \<le> i \<and> i < int extent then probe_walk rest shape else Inl IndexError)"
| "probe_walk (ISlice a b c # rest) (extent # shape) =
     on_ok (torch_slice_len a b c extent) (\<lambda>n.
     on_ok (probe_walk rest shape) (\<lambda>es. Inr (Basic n # es)))"
| "probe_walk (IList l # rest) (extent # shape) =
     (if list_all (\<lambda>v. - int extent \<le> v \<and> v < int extent) l
      then on_ok (probe_walk rest shape) (\<lambda>es. Inr (Adv (length l) # es))
      else Inl IndexError)"
| "probe_walk (IBoolTensor m # rest) (extent # shape) =
     (if length m = extent
      then on_ok (probe_walk rest shape) (\<lambda>es. Inr (Adv (bool_sum m) # es))
      else Inl IndexError)"
| "probe_walk (IIntTensor l # rest) (extent # shape) =
     (if list_all (\<lambda>v. - int extent \<le> v \<and> v < int extent) l
      then on_ok (probe_walk rest shape) (\<lambda>es. Inr (Adv (length l) # es))
      else Inl IndexError)"
| "probe_walk (IIntArray l # rest) (extent # shape) =
     (if list_all (\<lambda>v. - int extent \<le> v \<and> v < int extent) l
      then on_ok (probe_walk rest shape) (\<lambda>es. Inr (Adv (length l) # es))
      else Inl IndexError)"
| "probe_walk (IBoolArray m # rest) (extent # shape) =
     (if length m = extent
      then on_ok (probe_walk rest shape) (\<lambda>es. Inr (Adv (bool_sum m) # es))
      else Inl IndexError)"
| "probe_walk (IBoolList m # rest) (extent # shape) =
     (if length m = extent
      then on_ok (probe_walk rest shape) (\<lambda>es. Inr (Adv (bool_sum m) # es))
      else Inl IndexError)"
| "probe_walk (IInt i # rest) [] = Inl IndexError"
| "probe_walk (ISlice a b c # rest) [] = Inl IndexError"
| "probe_walk (IList l # rest) [] = Inl IndexError"
| "probe_walk (IBoolTensor m # rest) [] = Inl IndexError"
| "probe_walk (IIntTensor l # rest) [] = Inl IndexError"
| "probe_walk (IIntArray l # rest) [] = Inl IndexError"
| "probe_walk (IBoolArray m # rest) [] = Inl IndexError"
| "probe_walk (IBoolList m # rest) [] = Inl IndexError"
| "probe_walk (x # rest) shape = Inl NotImplementedError"

text \<open>The sizes of several position arrays and masks are broadcast against each other.\<close>

definition broadcast_sizes :: "nat list \<Rightarrow> exn + nat" where
  "broadcast_sizes ns =
     (case filter (\<lambda>n. n \<noteq> 1) ns of
        [] \<Rightarrow> Inr 1
      | b # bs \<Rightarrow> (if list_all (\<lambda>n. n = b) bs then Inr b else Inl IndexError))"

text \<open>
  The position arrays and masks of an index produce one dimension together. It stands
  where they stood when they are next to each other, and in front of all others when a slice or
  \<^verbatim>\<open>None\<close> separates them.
\<close>

definition probe_result :: "entry list \<Rightarrow> exn + nat list" where
  "probe_result es =
     (let advs = filter is_adv es in
      if advs = [] then Inr (map size_of es)
      else
        on_ok (broadcast_sizes (map size_of advs)) (\<lambda>b.
          let front = takeWhile (\<lambda>e. \<not> is_adv e) es;
              from_first = dropWhile (\<lambda>e. \<not> is_adv e) es;
              rear = dropWhile is_adv from_first
          in if list_all (\<lambda>e. \<not> is_adv e) rear
             then Inr (map size_of front @ [b] @ map size_of rear)
             else Inr (b # map size_of (filter (\<lambda>e. \<not> is_adv e) es))))"

text \<open>\<^verbatim>\<open>probe[idx].shape\<close> for a probe of shape \<open>shape\<close> and the index tuple \<open>idx\<close>.\<close>

definition probe_shape :: "nat list \<Rightarrow> item list \<Rightarrow> exn + nat list" where
  "probe_shape shape idx = on_ok (probe_walk idx shape) probe_result"

text \<open>
  The index elements for which the function is compared with the reference: integers,
  slices, lists of integers, boolean tensors and \<^verbatim>\<open>None\<close>; and those among all index
  elements that are arrays of positions or masks.
\<close>

fun in_fragment :: "item \<Rightarrow> bool" where
  "in_fragment (IInt i) = True"
| "in_fragment (ISlice a b c) = True"
| "in_fragment (IList l) = True"
| "in_fragment (IBoolTensor m) = True"
| "in_fragment INone = True"
| "in_fragment x = False"

fun is_array :: "item \<Rightarrow> bool" where
  "is_array (IList l) = True"
| "is_array (IBoolTensor m) = True"
| "is_array (IIntTensor l) = True"
| "is_array (IBoolArray m) = True"
| "is_array (IIntArray l) = True"
| "is_array (IBoolList m) = True"
| "is_array x = False"

section \<open>The examples of shape inference\<close>

lemma slice_indices_1_3_4: "slice_indices (Some 1) (Some 3) None 4 = Inr (1, 3, 1)"
  by (simp add: slice_indices_def)

text \<open>
  Claim C2, as the source computes it. On the shape \<open>(4, 5, 6)\<close> the index \<open>(0,)\<close> gives
  \<open>(5, 6)\<close> and the index \<open>([0, 2],)\<close> gives \<open>(2, 5, 6)\<close>. The index \<open>(slice(1, 3), None)\<close>
  gives \<open>(2, 1, 5, 6)\<close>: the slice takes the first dimension, \<^verbatim>\<open>None\<close> takes none and adds
  an axis of size 1, and both remaining dimensions are appended.
\<close>

theorem getitem_batch_size_examples:
  "getitem_batch_size [4, 5, 6] (ITuple [IInt 0]) = Inr [5, 6]
   \<and> getitem_batch_size [4, 5, 6] (ITuple [IList [0, 2]]) = Inr [2, 5, 6]
   \<and> getitem_batch_size [4, 5, 6] (ITuple [ISlice (Some 1) (Some 3) None, INone])
       = Inr [2, 1, 5, 6]"
  by (simp add: getitem_batch_size_def batch_size_tuple_def slice_indices_1_3_4 range_len_def)

text \<open>
  The third example of claim C2 as the specification states it, with the result
  \<open>(2, 1, 6)\<close>, is not what the function returns.
\<close>

theorem getitem_batch_size_slice_none_counterexample:
  "getitem_batch_size [4, 5, 6] (ITuple [ISlice (Some 1) (Some 3) None, INone]) \<noteq> Inr [2, 1, 6]"
  by (simp add: getitem_batch_size_def batch_size_tuple_def slice_indices_1_3_4 range_len_def)

section \<open>Ellipsis expansion\<close>

lemma filter_no_ellipsis:
  "IEllipsis \<notin> set xs \<Longrightarrow> filter (\<lambda>x. x = IEllipsis) xs = []"
  by (induction xs) auto

lemma scan_ellipsis_none:
  "IEllipsis \<notin> set xs \<Longrightarrow> scan_ellipsis i xs None a = Inr (None, a)"
  by (induction xs arbitrary: i) auto

lemma scan_ellipsis_after:
  "IEllipsis \<notin> set xs \<Longrightarrow> scan_ellipsis i xs (Some p) a = Inr (Some p, a + length xs)"
  by (induction xs arbitrary: i a) auto

lemma scan_ellipsis_one:
  "IEllipsis \<notin> set before \<Longrightarrow> IEllipsis \<notin> set after \<Longrightarrow>
   scan_ellipsis i (before @ IEllipsis # after) None a
     = Inr (Some (i + length before), a + length after)"
  by (induction before arbitrary: i) (auto simp: scan_ellipsis_after)

lemma scan_ellipsis_second:
  "IEllipsis \<in> set xs \<Longrightarrow>
   scan_ellipsis i xs (Some p) a
     = Inl (RuntimeError ''An index can only have one ellipsis at most.'')"
  by (induction xs arbitrary: i a) auto

lemma scan_ellipsis_two:
  "2 \<le> length (filter (\<lambda>x. x = IEllipsis) xs) \<Longrightarrow>
   scan_ellipsis i xs None a
     = Inl (RuntimeError ''An index can only have one ellipsis at most.'')"
proof (induction xs arbitrary: i)
  case Nil
  then show ?case by simp
next
  case (Cons x xs)
  show ?case
  proof (cases "x = IEllipsis")
    case True
    with Cons.prems have "filter (\<lambda>x. x = IEllipsis) xs \<noteq> []" by auto
    then have "IEllipsis \<in> set xs"
      by (metis (mono_tags, lifting) filter_False)
    with True show ?thesis by (simp add: scan_ellipsis_second)
  next
    case False
    with Cons show ?thesis by simp
  qed
qed

text \<open>The bare ellipsis stands for a full slice in every dimension.\<close>

lemma convert_ellipsis_bare:
  "convert_ellipsis_to_idx BareEllipsis batch_size
     = Inr (replicate (length batch_size) full_slice)"
  by (simp add: convert_ellipsis_to_idx_def)

text \<open>
  Claim C3. An index tuple with exactly one ellipsis, \<open>before\<close> in front of it and
  \<open>after\<close> behind it, with no more elements other than the ellipsis than the batch shape
  has dimensions, is converted to \<open>before\<close>, then \<open>len(batch_size) - (len(before) +
  len(after))\<close> full slices, then \<open>after\<close>; the result has exactly \<open>len(batch_size)\<close>
  elements.
\<close>

theorem convert_ellipsis_to_idx_one_ellipsis:
  assumes "IEllipsis \<notin> set before" and "IEllipsis \<notin> set after"
    and "length before + length after \<le> length batch_size"
  shows "convert_ellipsis_to_idx (IndexTuple (before @ IEllipsis # after)) batch_size
           = Inr (before
                  @ replicate (length batch_size - (length before + length after)) full_slice
                  @ after)
         \<and> length (before
                  @ replicate (length batch_size - (length before + length after)) full_slice
                  @ after) = length batch_size"
proof -
  have f: "filter (\<lambda>x. x = IEllipsis) (before @ IEllipsis # after) = [IEllipsis]"
    using assms(1,2) by (simp add: filter_no_ellipsis)
  have s: "scan_ellipsis 0 (before @ IEllipsis # after) None 0
             = Inr (Some (length before), length after)"
    using scan_ellipsis_one [OF assms(1,2), of 0 0] by simp
  have n: "nat (int (length batch_size) - int (length after) - int (length before))
             = length batch_size - (length before + length after)"
    by linarith
  show ?thesis
    using assms(3) by (simp add: convert_ellipsis_to_idx_def f s n)
qed

theorem convert_ellipsis_to_idx_one_ellipsis_witness:
  "convert_ellipsis_to_idx (IndexTuple ([IInt 0] @ IEllipsis # [IInt 1])) [3, 4, 5, 6]
     = Inr [IInt 0, full_slice, full_slice, IInt 1]"
  using convert_ellipsis_to_idx_one_ellipsis [of "[IInt 0]" "[IInt 1]" "[3, 4, 5, 6]"]
  by (simp add: numeral_eq_Suc)

text \<open>
  Claim C6 as stated fails: the check of the number of dimensions comes before the search
  for the ellipsis, so a tuple with two ellipses and more other elements than the batch
  shape has dimensions raises the error of that check.
\<close>

theorem convert_ellipsis_to_idx_two_ellipsis_counterexample:
  "convert_ellipsis_to_idx (IndexTuple [IEllipsis, IEllipsis, IInt 0]) []
     = Inl (RuntimeError ''Not enough dimensions in TensorDict for index provided.'')
   \<and> convert_ellipsis_to_idx (IndexTuple [IEllipsis, IEllipsis, IInt 0]) []
     \<noteq> Inl (RuntimeError ''An index can only have one ellipsis at most.'')"
  by (simp add: convert_ellipsis_to_idx_def)

text \<open>
  Claim C6, amended. An index tuple with two or more ellipses raises the error
  "An index can only have one ellipsis at most." when its elements other than the
  ellipses are no more than the dimensions of the batch shape; when they are more, the
  error "Not enough dimensions in TensorDict for index provided." is raised instead.
\<close>

theorem convert_ellipsis_to_idx_two_ellipsis:
  assumes "2 \<le> length (filter (\<lambda>x. x = IEllipsis) idx)"
  shows "(length idx - length (filter (\<lambda>x. x = IEllipsis) idx) \<le> length batch_size \<longrightarrow>
            convert_ellipsis_to_idx (IndexTuple idx) batch_size
              = Inl (RuntimeError ''An index can only have one ellipsis at most.''))
       \<and> (length batch_size < length idx - length (filter (\<lambda>x. x = IEllipsis) idx) \<longrightarrow>
            convert_ellipsis_to_idx (IndexTuple idx) batch_size
              = Inl (RuntimeError ''Not enough dimensions in TensorDict for index provided.''))"
proof -
  have "length (filter (\<lambda>x. x = IEllipsis) idx) \<le> length idx"
    by (rule length_filter_le)
  then have c: "(int (length batch_size)
                  < int (length idx) - int (length (filter (\<lambda>x. x = IEllipsis) idx)))
               = (length batch_size < length idx - length (filter (\<lambda>x. x = IEllipsis) idx))"
    by linarith
  show ?thesis
    using scan_ellipsis_two [OF assms, of 0 0]
    by (simp add: convert_ellipsis_to_idx_def c del: scan_ellipsis.simps)
qed

theorem convert_ellipsis_to_idx_two_ellipsis_witness:
  "convert_ellipsis_to_idx (IndexTuple [IEllipsis, IInt 0, IEllipsis]) [3, 4]
     = Inl (RuntimeError ''An index can only have one ellipsis at most.'')
   \<and> convert_ellipsis_to_idx (IndexTuple [IEllipsis, IInt 0, IEllipsis]) []
     = Inl (RuntimeError ''Not enough dimensions in TensorDict for index provided.'')"
  using convert_ellipsis_to_idx_two_ellipsis [of "[IEllipsis, IInt 0, IEllipsis]" "[3, 4]"]
    convert_ellipsis_to_idx_two_ellipsis [of "[IEllipsis, IInt 0, IEllipsis]" "[]"]
  by simp

text \<open>
  Claim C10. For an index tuple without an ellipsis that passes the check of the number
  of dimensions, \<^verbatim>\<open>start_pos\<close> is still \<^verbatim>\<open>None\<close> after the loop and the subtraction that
  computes \<^verbatim>\<open>ellipsis_length\<close> raises \<^verbatim>\<open>TypeError\<close>: the index is not returned, and none
  of the two \<^verbatim>\<open>RuntimeError\<close>s of the function is raised.
\<close>

theorem convert_ellipsis_to_idx_no_ellipsis:
  assumes "IEllipsis \<notin> set idx" and "length idx \<le> length batch_size"
  shows "convert_ellipsis_to_idx (IndexTuple idx) batch_size = Inl TypeError"
  using assms scan_ellipsis_none [OF assms(1), of 0 0]
  by (simp add: convert_ellipsis_to_idx_def filter_no_ellipsis del: scan_ellipsis.simps)

theorem convert_ellipsis_to_idx_no_ellipsis_witness:
  "convert_ellipsis_to_idx (IndexTuple [IInt 0, full_slice]) [3, 4] = Inl TypeError"
  using convert_ellipsis_to_idx_no_ellipsis [of "[IInt 0, full_slice]" "[3, 4]"]
  by (simp add: full_slice_def)

section \<open>Ragged fields: lemmas\<close>

lemma on_ok_simps [simp]:
  "on_ok (Inl e) f = Inl e" "on_ok (Inr x) f = f x"
  by (simp_all add: on_ok_def)

subsection \<open>Cumulative sums\<close>

lemma length_cumsum_from [simp]: "length (cumsum_from a xs) = length xs"
  by (induction xs arbitrary: a) auto

lemma cumsum_from_nth:
  "i < length xs \<Longrightarrow> cumsum_from a xs ! i = a + sum_list (take (Suc i) xs)"
proof (induction xs arbitrary: a i)
  case Nil
  then show ?case by simp
next
  case (Cons x xs)
  then show ?case by (cases i) (auto simp: add.assoc)
qed

text \<open>The offsets \<open>0 # cumsum ls\<close>: entry \<open>s\<close> is the sum of the first \<open>s\<close> lengths.\<close>

lemma offsets_nth:
  "s \<le> length ls \<Longrightarrow> (0 # cumsum ls) ! s = sum_list (take s ls)"
  by (cases s) (auto simp: cumsum_def cumsum_from_nth)

lemma offsets_last: "last (0 # cumsum ls) = sum_list ls"
proof -
  have "length (0 # cumsum ls) - 1 = length ls" by (simp add: cumsum_def)
  then have "last (0 # cumsum ls) = (0 # cumsum ls) ! length ls"
    using last_conv_nth [of "0 # cumsum ls"] by simp
  then show ?thesis by (simp add: offsets_nth)
qed

lemma offsets_Suc:
  "s < length ls \<Longrightarrow> (0 # cumsum ls) ! Suc s = (0 # cumsum ls) ! s + ls ! s"
  using offsets_nth [of "Suc s" ls] offsets_nth [of s ls]
  by (simp add: take_Suc_conv_app_nth del: nth_Cons_Suc)

lemma offsets_mono:
  "s \<le> s' \<Longrightarrow> s' \<le> length ls \<Longrightarrow> (0 # cumsum ls) ! s \<le> (0 # cumsum ls) ! s'"
proof -
  assume a: "s \<le> s'" "s' \<le> length ls"
  then have "take s' ls = take s ls @ take (s' - s) (drop s ls)"
    by (metis le_add_diff_inverse take_add)
  then show ?thesis using a by (simp add: offsets_nth)
qed

lemma code_offsets:
  "ls \<noteq> [] \<Longrightarrow> cumsum (map (\<lambda>x. x * 0) (take 1 ls) @ ls) = 0 # cumsum ls"
  by (cases ls) (auto simp: cumsum_def)

subsection \<open>Views\<close>

lemma view_ok: "length xs = K * N \<Longrightarrow> view K N xs = Inr (rows_of K N xs)"
  by (simp add: view_def)

lemma length_rows_of [simp]: "length (rows_of K N xs) = K"
  by (simp add: rows_of_def)

lemma rows_of_nth:
  "k < K \<Longrightarrow> rows_of K N xs ! k = take N (drop (k * N) xs)"
  by (simp add: rows_of_def)

lemma rows_of_row_length:
  assumes "length xs = K * N" and "r \<in> set (rows_of K N xs)"
  shows "length r = N"
proof -
  from assms(2) obtain k where k: "k < K" "r = take N (drop (k * N) xs)"
    by (auto simp: rows_of_def)
  have "Suc k * N \<le> K * N" using k(1) by (simp only: mult_le_mono1 Suc_leI)
  then have "N \<le> K * N - k * N" by simp
  then show ?thesis using k assms(1) by simp
qed

lemma rows_of_Suc: "rows_of (Suc K) N xs = take N xs # rows_of K N (drop N xs)"
proof -
  have "[0..<Suc K] = 0 # map Suc [0..<K]"
    by (simp add: upt_conv_Cons map_Suc_upt del: upt_Suc)
  then show ?thesis
    by (simp add: rows_of_def add.commute del: upt_Suc)
qed

lemma concat_rows_of: "length xs = K * N \<Longrightarrow> concat (rows_of K N xs) = xs"
proof (induction K arbitrary: xs)
  case 0
  then show ?case by (simp add: rows_of_def)
next
  case (Suc K)
  then have "length (drop N xs) = K * N" by simp
  with Suc.IH have "concat (rows_of K N (drop N xs)) = drop N xs" by blast
  then show ?case by (simp add: rows_of_Suc)
qed

lemma rows_of_concat:
  "length rows = K \<Longrightarrow> \<forall>r \<in> set rows. length r = N \<Longrightarrow> rows_of K N (concat rows) = rows"
proof (induction rows arbitrary: K)
  case Nil
  then show ?case by (simp add: rows_of_def)
next
  case (Cons r rows)
  then obtain K' where K: "K = Suc K'" "length rows = K'" by (cases K) auto
  with Cons show ?case by (simp add: rows_of_Suc)
qed

lemma places_bound:
  assumes "\<forall>c \<in> set cols. c < N" and "s \<in> set (places K N cols)"
  shows "s < K * N"
proof -
  from assms(2) obtain k c where kc: "k < K" "c \<in> set cols" "s = k * N + c"
    by (auto simp: places_def)
  then have "c < N" using assms(1) by blast
  then have "k * N + c < Suc k * N" by simp
  also have "\<dots> \<le> K * N" using kc(1) by (simp only: mult_le_mono1 Suc_leI)
  finally show ?thesis using kc(3) by simp
qed

lemma select_columns_rows_of:
  assumes "length xs = K * N" and "\<forall>c \<in> set cols. c < N"
  shows "concat (select_columns (rows_of K N xs) cols) = map (\<lambda>s. xs ! s) (places K N cols)"
proof -
  have "\<And>k c. k < K \<Longrightarrow> c \<in> set cols \<Longrightarrow> take N (drop (k * N) xs) ! c = xs ! (k * N + c)"
  proof -
    fix k c assume kc: "k < K" "c \<in> set cols"
    then have "k * N + c \<in> set (places K N cols)"
      by (auto simp: places_def)
    then have "k * N + c < K * N"
      by (rule places_bound [OF assms(2)])
    then show "take N (drop (k * N) xs) ! c = xs ! (k * N + c)"
      using kc assms by simp
  qed
  then have "select_columns (rows_of K N xs) cols
               = map (\<lambda>k. map (\<lambda>c. xs ! (k * N + c)) cols) [0..<K]"
    by (simp add: select_columns_def rows_of_def)
  then show ?thesis
    by (simp add: places_def map_concat comp_def)
qed


subsection \<open>Index lists\<close>

lemma norm_cols_Inr:
  "norm_cols N idx = Inr cols \<Longrightarrow>
   length cols = length idx \<and> (\<forall>c \<in> set cols. c < N)
   \<and> cols = map (\<lambda>i. nat (i mod int N)) idx"
proof (induction idx arbitrary: cols)
  case Nil
  then show ?case by simp
next
  case (Cons i idx)
  from Cons.prems obtain c cs where c: "norm_index N i = Inr c"
    and cs: "norm_cols N idx = Inr cs" and e: "cols = c # cs"
    by (auto simp: on_ok_def split: sum.splits)
  from c have r: "- int N \<le> i" "i < int N" and cv: "c = nat (if i < 0 then i + int N else i)"
    by (auto simp: norm_index_def split: if_splits)
  have "c < N" using r cv by auto
  moreover have "c = nat (i mod int N)"
  proof (cases "i < 0")
    case True
    then have "i mod int N = i + int N" using r
      by (metis add.commute diff_ge_0_iff_ge mod_add_self2 mod_pos_pos_trivial
          add_less_same_cancel2 diff_minus_eq_add)
    then show ?thesis using cv True by simp
  next
    case False
    then show ?thesis using r cv by simp
  qed
  ultimately show ?case using Cons.IH [OF cs] e by simp
qed

lemma norm_cols_in_range:
  "\<forall>i \<in> set idx. - int N \<le> i \<and> i < int N \<Longrightarrow>
   norm_cols N idx = Inr (map (\<lambda>i. nat (i mod int N)) idx)"
proof (induction idx)
  case Nil
  then show ?case by simp
next
  case (Cons i idx)
  then have r: "- int N \<le> i" "i < int N" by auto
  then obtain c where c: "norm_index N i = Inr c" by (auto simp: norm_index_def)
  from Cons have cs: "norm_cols N idx = Inr (map (\<lambda>i. nat (i mod int N)) idx)" by simp
  have "norm_cols N (i # idx) = Inr (c # map (\<lambda>i. nat (i mod int N)) idx)"
    by (simp add: c cs)
  with norm_cols_Inr [OF this] show ?case by simp
qed

subsection \<open>The masks in terms of places\<close>

lemma offsets_views:
  assumes "length off = Suc (K * N)" and "\<forall>c \<in> set cols. c < N"
  shows "zip (concat (select_columns (rows_of K N (butlast off)) cols))
             (concat (select_columns (rows_of K N (drop 1 off)) cols))
         = map (\<lambda>s. (off ! s, off ! Suc s)) (places K N cols)"
proof -
  have b: "length (butlast off) = K * N" and d: "length (drop 1 off) = K * N"
    using assms(1) by simp_all
  have 1: "map (\<lambda>s. butlast off ! s) (places K N cols) = map (\<lambda>s. off ! s) (places K N cols)"
    using places_bound [OF assms(2)] b by (auto simp: nth_butlast)
  have 2: "map (\<lambda>s. drop 1 off ! s) (places K N cols) = map (\<lambda>s. off ! Suc s) (places K N cols)"
    using places_bound [OF assms(2)] assms(1) by auto
  have "zip (concat (select_columns (rows_of K N (butlast off)) cols))
            (concat (select_columns (rows_of K N (drop 1 off)) cols))
        = zip (map (\<lambda>s. off ! s) (places K N cols)) (map (\<lambda>s. off ! Suc s) (places K N cols))"
    by (simp only: select_columns_rows_of [OF b assms(2)] select_columns_rows_of [OF d assms(2)]
        1 2)
  also have "\<dots> = map (\<lambda>s. (off ! s, off ! Suc s)) (places K N cols)"
    by (simp add: zip_map_map zip_same_conv_map)
  finally show ?thesis .
qed

lemma sel_any_places:
  assumes "length off = Suc (K * N)" and "\<forall>c \<in> set cols. c < N"
  shows "sel_any (select_columns (rows_of K N (butlast off)) cols)
                 (select_columns (rows_of K N (drop 1 off)) cols) p
         = (\<exists>s \<in> set (places K N cols). off ! s \<le> p \<and> p < off ! Suc s)"
  unfolding sel_any_def offsets_views [OF assms] by (simp add: list_ex_iff)

lemma sel_none_places:
  assumes "length off = Suc (K * N)" and "\<forall>c \<in> set cols. c < N"
  shows "sel_none (select_columns (rows_of K N (butlast off)) cols)
                  (select_columns (rows_of K N (drop 1 off)) cols) p
         = (\<not> (\<exists>s \<in> set (places K N cols). off ! s \<le> p \<and> p < off ! Suc s))"
  unfolding sel_none_def offsets_views [OF assms] by (simp add: list_all_iff)

lemma distinct_places:
  assumes "distinct cols" and "\<forall>c \<in> set cols. c < N"
  shows "distinct (places K N cols)"
proof -
  have inj: "\<And>k. inj_on (\<lambda>c. k * N + c) (set cols)" by (simp add: inj_on_def)
  have "distinct (concat (map (\<lambda>k. map (\<lambda>c. k * N + c) cols) [0..<K]))"
    if "cols \<noteq> []"
  proof (rule distinct_concat)
    show "distinct (map (\<lambda>k. map (\<lambda>c. k * N + c) cols) [0..<K])"
    proof -
      from that obtain c0 where c0: "c0 \<in> set cols" by (cases cols) auto
      have "inj_on (\<lambda>k. map (\<lambda>c. k * N + c) cols) (set [0..<K])"
      proof (rule inj_onI)
        fix k k' assume "map (\<lambda>c. k * N + c) cols = map (\<lambda>c. k' * N + c) cols"
        then have "\<forall>c \<in> set cols. k * N + c = k' * N + c" by (simp only: map_eq_conv)
        then have "k * N + c0 = k' * N + c0" using c0 by blast
        moreover have "0 < N" using c0 assms(2) by fastforce 
        ultimately show "k = k'" by simp
      qed
      then show ?thesis by (simp add: distinct_map)
    qed
  next
    fix ys assume "ys \<in> set (map (\<lambda>k. map (\<lambda>c. k * N + c) cols) [0..<K])"
    then show "distinct ys" using assms(1) inj by (auto simp: distinct_map)
  next
    fix ys zs
    assume a: "ys \<in> set (map (\<lambda>k. map (\<lambda>c. k * N + c) cols) [0..<K])"
      "zs \<in> set (map (\<lambda>k. map (\<lambda>c. k * N + c) cols) [0..<K])" "ys \<noteq> zs"
    then obtain k k' where k: "ys = map (\<lambda>c. k * N + c) cols" "zs = map (\<lambda>c. k' * N + c) cols"
      "k \<noteq> k'" by auto
    show "set ys \<inter> set zs = {}"
    proof (rule ccontr)
      assume "set ys \<inter> set zs \<noteq> {}"
      then obtain c c' where cc: "c \<in> set cols" "c' \<in> set cols" "k * N + c = k' * N + c'"
        using k by auto
      then have "c < N" "c' < N" using assms(2) by auto
      then have "(k * N + c) div N = k" "(k' * N + c') div N = k'" by simp_all
      with cc(3) k(3) show False by metis
    qed
  qed
  moreover have "distinct (concat (map (\<lambda>k. []) [0..<K]) :: nat list)"
    by (induction K) simp_all
  ultimately show ?thesis by (cases "cols = []") (simp_all add: places_def)
qed

subsection \<open>Counting the selected positions\<close>

lemma count_places:
  assumes "distinct S" and "\<forall>s \<in> set S. s < length ls" and off: "off = 0 # cumsum ls"
  shows "length (filter (\<lambda>p. \<exists>s \<in> set S. off ! s \<le> p \<and> p < off ! Suc s) [0..<sum_list ls])
         = sum_list (map (\<lambda>s. ls ! s) S)"
proof -
  let ?A = "\<lambda>s. {off ! s ..< off ! Suc s}"
  have step: "\<And>s. s < length ls \<Longrightarrow> off ! Suc s = off ! s + ls ! s"
    unfolding off by (rule offsets_Suc)
  have mono: "\<And>s s'. s \<le> s' \<Longrightarrow> s' \<le> length ls \<Longrightarrow> off ! s \<le> off ! s'"
    unfolding off by (rule offsets_mono)
  have total: "off ! length ls = sum_list ls"
    unfolding off by (simp add: offsets_nth)
  have bound: "\<And>s. s \<in> set S \<Longrightarrow> off ! Suc s \<le> sum_list ls"
  proof -
    fix s assume "s \<in> set S"
    then have "Suc s \<le> length ls" using assms(2) by (simp add: Suc_leI)
    then have "off ! Suc s \<le> off ! length ls" by (intro mono) simp_all
    then show "off ! Suc s \<le> sum_list ls" using total by simp
  qed
  have disj: "\<forall>s \<in> set S. \<forall>s' \<in> set S. s \<noteq> s' \<longrightarrow> ?A s \<inter> ?A s' = {}"
  proof (intro ballI impI)
    fix s s' assume a: "s \<in> set S" "s' \<in> set S" "s \<noteq> s'"
    then have l: "s < length ls" "s' < length ls" using assms(2) by auto
    from a(3) consider "s < s'" | "s' < s" by linarith
    then show "?A s \<inter> ?A s' = {}"
    proof cases
      case 1
      then have "off ! Suc s \<le> off ! s'" using l by (intro mono) simp_all
      then show ?thesis by auto
    next
      case 2
      then have "off ! Suc s' \<le> off ! s" using l by (intro mono) simp_all
      then show ?thesis by auto
    qed
  qed
  have "length (filter (\<lambda>p. \<exists>s \<in> set S. off ! s \<le> p \<and> p < off ! Suc s) [0..<sum_list ls])
          = card ({p. \<exists>s \<in> set S. off ! s \<le> p \<and> p < off ! Suc s} \<inter> set [0..<sum_list ls])"
    by (rule distinct_length_filter) simp
  also have "{p. \<exists>s \<in> set S. off ! s \<le> p \<and> p < off ! Suc s} \<inter> set [0..<sum_list ls]
               = (\<Union>s \<in> set S. ?A s)"
  proof (rule set_eqI)
    fix p
    show "p \<in> {p. \<exists>s \<in> set S. off ! s \<le> p \<and> p < off ! Suc s} \<inter> set [0..<sum_list ls]
            \<longleftrightarrow> p \<in> (\<Union>s \<in> set S. ?A s)"
      using bound by fastforce
  qed
  also have "card (\<Union>s \<in> set S. ?A s) = (\<Sum>s \<in> set S. card (?A s))"
    using disj by (intro card_UN_disjoint) simp_all
  also have "\<dots> = (\<Sum>s \<in> set S. ls ! s)"
  proof (rule sum.cong)
    fix s assume "s \<in> set S"
    then have "s < length ls" using assms(2) by blast
    then show "card (?A s) = ls ! s" using step [of s] by simp
  qed simp
  also have "\<dots> = sum_list (map (\<lambda>s. ls ! s) S)"
    using assms(1) by (simp add: sum_list_distinct_conv_sum_set)
  finally show ?thesis .
qed

subsection \<open>Writing at positions\<close>

lemma length_put_all [simp]: "length (put_all ps xs t) = length t"
  by (induction ps xs t rule: put_all.induct) simp_all

lemma put_all_map_nth:
  "\<forall>p \<in> set ps. p < length t \<Longrightarrow> q < length t \<Longrightarrow>
   put_all ps (map f ps) t ! q = (if q \<in> set ps then f q else t ! q)"
proof (induction ps arbitrary: t)
  case Nil
  then show ?case by simp
next
  case (Cons p ps)
  then show ?case by (auto simp: nth_list_update)
qed

lemma put_all_notin:
  "q \<notin> set ps \<Longrightarrow> put_all ps xs t ! q = t ! q"
  by (induction ps xs t rule: put_all.induct) (auto simp: nth_list_update)

lemma put_all_select:
  "distinct ps \<Longrightarrow> length xs = length ps \<Longrightarrow> \<forall>p \<in> set ps. p < length t \<Longrightarrow>
   map (\<lambda>p. put_all ps xs t ! p) ps = xs"
proof (induction ps xs t rule: put_all.induct)
  case (1 p ps x xs t)
  then have "put_all ps xs (t[p := x]) ! p = x"
    by (simp add: put_all_notin)
  with 1 show ?case by simp
qed simp_all

lemma put_all_sum:
  "distinct ps \<Longrightarrow> length xs = length ps \<Longrightarrow> \<forall>p \<in> set ps. p < length (t :: nat list) \<Longrightarrow>
   sum_list (put_all ps xs t) + sum_list (map (\<lambda>p. t ! p) ps) = sum_list t + sum_list xs"
proof (induction ps xs t rule: put_all.induct)
  case (1 p ps x xs t)
  have m: "map (\<lambda>q. t[p := x] ! q) ps = map (\<lambda>q. t ! q) ps"
  proof (rule map_cong [OF refl])
    fix q assume "q \<in> set ps"
    then have "p \<noteq> q" using 1(2) by auto
    then show "t[p := x] ! q = t ! q" by simp
  qed
  have "t ! p \<le> sum_list t"
    using 1(4) by (intro member_le_sum_list) simp_all
  then have u: "sum_list (t[p := x]) + t ! p = sum_list t + x"
    using 1(4) by (simp add: sum_list_update)
  have "sum_list (put_all ps xs (t[p := x])) + sum_list (map (\<lambda>q. t[p := x] ! q) ps)
          = sum_list (t[p := x]) + sum_list xs"
    using 1(2,3,4) by (intro 1(1)) simp_all
  then have "sum_list (put_all ps xs (t[p := x])) + sum_list (map (\<lambda>q. t ! q) ps)
          = sum_list (t[p := x]) + sum_list xs"
    by (simp only: m)
  with u show ?case by simp
qed simp_all

lemma gather_ok:
  "\<forall>p \<in> set ps. p < length xs \<Longrightarrow> gather xs ps = Inr (map (\<lambda>p. xs ! p) ps)"
  by (simp add: gather_def list_all_iff)

lemma index_put_ok:
  "length v = length ps \<Longrightarrow> \<forall>p \<in> set ps. p < length t \<Longrightarrow>
   index_put t ps v = Inr (put_all ps v t)"
  by (simp add: index_put_def broadcast_to_def list_all_iff)

lemma length_empty [simp]: "length (empty junk n) = n"
  by (simp add: empty_def)

lemma broadcast_rows_ok:
  "\<forall>v \<in> set vs. length v = n \<Longrightarrow> broadcast_rows n vs = Inr vs"
  by (induction vs) (simp_all add: broadcast_to_def)

subsection \<open>Writing columns\<close>

lemma setitem_columns_ok:
  assumes "norm_cols N idx = Inr cols" and "\<forall>v \<in> set vrows. length v = length idx"
  shows "setitem_columns N rows idx vrows = Inr (put_columns cols rows vrows)"
  by (simp add: setitem_columns_def broadcast_rows_ok [OF assms(2)] assms(1) put_columns_def)

lemma getitem_columns_ok:
  "norm_cols N idx = Inr cols \<Longrightarrow> getitem_columns N rows idx = Inr (select_columns rows cols)"
  by (simp add: getitem_columns_def)

lemma length_put_columns:
  "length ws = length rows \<Longrightarrow> length (put_columns cols rows ws) = length rows"
  by (simp add: put_columns_def)

lemma put_columns_row_length:
  "\<forall>r \<in> set rows. length r = N \<Longrightarrow> r' \<in> set (put_columns cols rows ws) \<Longrightarrow> length r' = N"
  by (auto simp: put_columns_def dest: set_zip_leftD)

lemma put_columns_same:
  assumes "\<forall>r \<in> set rows. length r = N" and "\<forall>c \<in> set cols. c < N"
  shows "put_columns cols rows (select_columns rows cols) = rows"
proof -
  have same: "\<And>r. r \<in> set rows \<Longrightarrow> put_all cols (map (\<lambda>c. r ! c) cols) r = r"
  proof -
    fix r assume "r \<in> set rows"
    then have l: "length r = N" using assms(1) by blast
    show "put_all cols (map (\<lambda>c. r ! c) cols) r = r"
    proof (rule nth_equalityI)
      show "length (put_all cols (map (\<lambda>c. r ! c) cols) r) = length r" by simp
    next
      fix i assume "i < length (put_all cols (map (\<lambda>c. r ! c) cols) r)"
      then have "i < length r" by simp
      moreover have "\<forall>c \<in> set cols. c < length r" using l assms(2) by simp
      ultimately show "put_all cols (map (\<lambda>c. r ! c) cols) r ! i = r ! i"
        by (simp only: put_all_map_nth if_cancel)
    qed
  qed
  have "zip rows (map (\<lambda>r. map (\<lambda>c. r ! c) cols) rows)
          = map (\<lambda>r. (r, map (\<lambda>c. r ! c) cols)) rows"
    by (induction rows) simp_all
  then have "put_columns cols rows (select_columns rows cols)
          = map (\<lambda>r. put_all cols (map (\<lambda>c. r ! c) cols) r) rows"
    by (simp add: put_columns_def select_columns_def)
  also have "\<dots> = map (\<lambda>r. r) rows"
    by (rule map_cong [OF refl]) (rule same)
  finally show ?thesis by simp
qed

lemma put_columns_select:
  assumes "distinct cols" and "\<forall>c \<in> set cols. c < N"
    and "length ws = length rows"
    and "\<forall>r \<in> set rows. length r = N" and "\<forall>w \<in> set ws. length w = length cols"
  shows "select_columns (put_columns cols rows ws) cols = ws"
  using assms(3,4,5)
proof (induction rows ws rule: list_induct2')
  case (4 r rows w ws)
  have "map (\<lambda>c. put_all cols w r ! c) cols = w"
    using 4 assms(1,2) by (intro put_all_select) auto
  with 4 show ?case by (simp add: put_columns_def select_columns_def)
qed (simp_all add: put_columns_def select_columns_def)

lemma put_columns_Cons:
  "put_columns cols (r # rows) (w # ws) = put_all cols w r # put_columns cols rows ws"
  by (simp add: put_columns_def)

lemma select_columns_Cons:
  "select_columns (r # rows) cols = map (\<lambda>c. r ! c) cols # select_columns rows cols"
  by (simp add: select_columns_def)

lemma put_columns_sum:
  assumes "distinct cols" and "\<forall>c \<in> set cols. c < N"
    and "length ws = length rows"
    and "\<forall>r \<in> set rows. length r = N" and "\<forall>w \<in> set ws. length w = length cols"
  shows "sum_list (concat (put_columns cols rows ws)) + sum_list (concat (select_columns rows cols))
         = sum_list (concat rows) + sum_list (concat (ws :: nat list list))"
  using assms(3,4,5)
proof (induction rows ws rule: list_induct2')
  case 1
  show ?case
    by (simp only: put_columns_def select_columns_def zip.simps list.map concat.simps)
next
  case (2 r rows)
  from 2(1) show ?case by simp
next
  case (3 w ws)
  from 3(1) show ?case by simp
next
  case (4 r rows w ws)
  have lr: "length r = N" and lw: "length w = length cols" using 4(3,4) by simp_all
  have a: "sum_list (put_all cols w r) + sum_list (map (\<lambda>c. r ! c) cols) = sum_list r + sum_list w"
    by (rule put_all_sum [OF assms(1) lw]) (simp add: lr assms(2))
  have b: "sum_list (concat (put_columns cols rows ws))
        + sum_list (concat (select_columns rows cols))
        = sum_list (concat rows) + sum_list (concat ws)"
  proof (rule 4(1))
    show "length ws = length rows" using 4(2) by simp
    show "\<forall>r \<in> set rows. length r = N" using 4(3) by simp
    show "\<forall>w \<in> set ws. length w = length cols" using 4(4) by simp
  qed
  have "sum_list (concat (put_columns cols (r # rows) (w # ws)))
        + sum_list (concat (select_columns (r # rows) cols))
      = (sum_list (put_all cols w r) + sum_list (map (\<lambda>c. r ! c) cols))
        + (sum_list (concat (put_columns cols rows ws))
           + sum_list (concat (select_columns rows cols)))"
    by (simp only: put_columns_Cons select_columns_Cons concat.simps sum_list_append ac_simps)
  also have "\<dots> = (sum_list r + sum_list w) + (sum_list (concat rows) + sum_list (concat ws))"
    by (simp only: a b)
  also have "\<dots> = sum_list (concat (r # rows)) + sum_list (concat (w # ws))"
    by simp
  finally show ?case .
qed

lemma selected_iff:
  "selected off S = (\<lambda>p. \<exists>s \<in> set S. off ! s \<le> p \<and> p < off ! Suc s)"
  by (rule ext) (simp add: selected_def list_ex_iff)

lemma length_cumsum [simp]: "length (cumsum ls) = length ls"
  by (simp add: cumsum_def)

lemma sel_any_selected:
  assumes "length off = Suc (K * N)" and "\<forall>c \<in> set cols. c < N"
  shows "sel_any (select_columns (rows_of K N (butlast off)) cols)
                 (select_columns (rows_of K N (drop 1 off)) cols)
         = selected off (places K N cols)"
  by (rule ext) (simp only: sel_any_places [OF assms] selected_iff)

lemma sel_none_selected:
  assumes "length off = Suc (K * N)" and "\<forall>c \<in> set cols. c < N"
  shows "sel_none (select_columns (rows_of K N (butlast off)) cols)
                  (select_columns (rows_of K N (drop 1 off)) cols)
         = (\<lambda>p. \<not> selected off (places K N cols) p)"
  by (rule ext) (simp only: sel_none_places [OF assms] selected_iff)

lemma count_selected:
  assumes "distinct S" and "\<forall>s \<in> set S. s < length ls"
  shows "length (filter (selected (0 # cumsum ls) S) [0..<sum_list ls])
         = sum_list (map (\<lambda>s. ls ! s) S)"
  unfolding selected_iff by (rule count_places [OF assms refl])

lemma count_not_selected:
  assumes "distinct S" and "\<forall>s \<in> set S. s < length ls"
  shows "length (filter (\<lambda>p. \<not> selected (0 # cumsum ls) S p) [0..<sum_list ls])
           + sum_list (map (\<lambda>s. ls ! s) S) = sum_list ls"
proof -
  have "length (filter (selected (0 # cumsum ls) S) [0..<sum_list ls])
        + length (filter (\<lambda>p. \<not> selected (0 # cumsum ls) S p) [0..<sum_list ls])
        = length [0..<sum_list ls]"
    by (rule sum_length_filter_compl)
  then show ?thesis by (simp add: count_selected [OF assms])
qed

text \<open>What a layout invariant gives.\<close>

lemma invariant_facts:
  assumes "layout_invariant t"
  shows "0 < length (keys t)"
    and "length (lengths t) = length (keys t) * batch_size_of t"
    and "length (offsets t) = Suc (length (keys t) * batch_size_of t)"
    and "offsets t = 0 # cumsum (lengths t)"
    and "sum_list (lengths t) = length (values t)"
    and "sum_list (lengths t) = length (weights t)"
    and "length (lengths t) div length (keys t) = batch_size_of t"
    and "last_elem (offsets t) = Inr (sum_list (lengths t))"
proof -
  from assms show a: "0 < length (keys t)"
    and b: "length (lengths t) = length (keys t) * batch_size_of t"
    and "length (offsets t) = Suc (length (keys t) * batch_size_of t)"
    and o: "offsets t = 0 # cumsum (lengths t)"
    and v: "sum_list (lengths t) = length (values t)"
    by (simp_all add: layout_invariant_def)
  from assms v show "sum_list (lengths t) = length (weights t)"
    by (simp add: layout_invariant_def)
  show "length (lengths t) div length (keys t) = batch_size_of t"
    by (simp add: batch_size_of_def)
  show "last_elem (offsets t) = Inr (sum_list (lengths t))"
    unfolding o last_elem_def by (simp only: offsets_last list.distinct if_False)
qed

lemma index_keyedjaggedtensor_list:
  assumes inv: "layout_invariant t"
    and cols: "norm_cols (batch_size_of t) idx = Inr cols"
    and T: "sum_list (lengths t) \<noteq> 1"
  shows "index_keyedjaggedtensor True t (ListIndex idx)
         = Inr (KeyedJaggedTensor
             (map (\<lambda>p. values t ! p)
                (filter (selected (offsets t) (places (length (keys t)) (batch_size_of t) cols))
                   [0..<sum_list (lengths t)]))
             (keys t)
             (map (\<lambda>p. weights t ! p)
                (filter (selected (offsets t) (places (length (keys t)) (batch_size_of t) cols))
                   [0..<sum_list (lengths t)]))
             (map (\<lambda>s. lengths t ! s) (places (length (keys t)) (batch_size_of t) cols)))"
proof -
  let ?K = "length (keys t)" and ?N = "batch_size_of t" and ?T = "sum_list (lengths t)"
  let ?S = "places ?K ?N cols"
  let ?ps = "filter (selected (offsets t) ?S) [0..<?T]"
  note f = invariant_facts [OF inv]
  have cb: "\<forall>c \<in> set cols. c < ?N" using norm_cols_Inr [OF cols] by simp
  have k: "(length (keys t) = 0) = False" using f(1) by simp
  have v1: "view ?K ?N (butlast (offsets t)) = Inr (rows_of ?K ?N (butlast (offsets t)))"
    by (rule view_ok) (simp add: f(3))
  have v2: "view ?K ?N (drop 1 (offsets t)) = Inr (rows_of ?K ?N (drop 1 (offsets t)))"
    by (rule view_ok) (simp add: f(3))
  have v3: "view ?K ?N (lengths t) = Inr (rows_of ?K ?N (lengths t))"
    by (rule view_ok) (rule f(2))
  have sq: "squeeze_select ?T (selected (offsets t) ?S) = Inr ?ps"
    using T by (simp add: squeeze_select_def)
  have g1: "gather (values t) ?ps = Inr (map (\<lambda>p. values t ! p) ?ps)"
    by (rule gather_ok) (simp add: f(5) [symmetric])
  have g2: "gather (weights t) ?ps = Inr (map (\<lambda>p. weights t ! p) ?ps)"
    by (rule gather_ok) (simp add: f(6) [symmetric])
  have ls: "concat (select_columns (rows_of ?K ?N (lengths t)) cols)
              = map (\<lambda>s. lengths t ! s) ?S"
    by (rule select_columns_rows_of [OF f(2) cb])
  show ?thesis
    unfolding index_keyedjaggedtensor_def Let_def f(7)
    by (simp only: k if_False not_True_eq_False batch_index.case v1 v2 v3 on_ok_simps
        getitem_columns_ok [OF cols] f(8) sel_any_selected [OF f(3) cb] sq g1 g2 ls)
qed

lemma length_concat_uniform:
  "\<forall>r \<in> set rows. length r = N \<Longrightarrow> length (concat rows) = length rows * N"
  by (induction rows) simp_all

lemma squeeze_select_cases:
  "squeeze_select T sel = (if T = 1 then Inl IndexError else Inr (filter sel [0..<T]))"
  by (simp add: squeeze_select_def)

lemma last_elem_Nil: "last_elem [] = Inl IndexError"
  by (simp add: last_elem_def)

lemma filter_upt_bound: "\<forall>p \<in> set (filter P [0..<T]). p < T"
  by simp

lemma write_counts:
  assumes io: "layout_invariant orig" and ia: "layout_invariant other"
    and ke: "keys other = keys orig"
    and cb: "\<forall>c \<in> set cols. c < batch_size_of orig" and dc: "distinct cols"
    and m: "batch_size_of other = length cols"
  defines "S \<equiv> places (length (keys orig)) (batch_size_of orig) cols"
    and "lo \<equiv> lengths_out_of orig cols other"
  shows "length lo = length (keys orig) * batch_size_of orig"
    and "map (\<lambda>s. lo ! s) S = lengths other"
    and "sum_list lo + sum_list (map (\<lambda>s. lengths orig ! s) S)
           = sum_list (lengths orig) + sum_list (lengths other)"
    and "distinct S" and "\<forall>s \<in> set S. s < length lo" and "\<forall>s \<in> set S. s < length (lengths orig)"
proof -
  let ?K = "length (keys orig)" and ?N = "batch_size_of orig"
  let ?rows = "rows_of ?K ?N (lengths orig)"
  let ?vrows = "rows_of ?K (length cols) (lengths other)"
  note fo = invariant_facts [OF io] and fa = invariant_facts [OF ia]
  have la: "length (lengths other) = ?K * length cols"
    using fa(2) ke m by simp
  have rl: "\<forall>r \<in> set ?rows. length r = ?N"
    using rows_of_row_length [OF fo(2)] by blast
  have vl: "\<forall>w \<in> set ?vrows. length w = length cols"
    using rows_of_row_length [OF la] by blast
  have ll: "length ?vrows = length ?rows" by simp
  have ol: "\<forall>r \<in> set (put_columns cols ?rows ?vrows). length r = ?N"
    using put_columns_row_length [OF rl] by blast
  have lr: "length (put_columns cols ?rows ?vrows) = ?K"
    by (simp add: length_put_columns)
  show len: "length lo = ?K * ?N"
    unfolding lo_def lengths_out_of_def
    by (simp only: length_concat_uniform [OF ol] lr)
  have ro: "rows_of ?K ?N lo = put_columns cols ?rows ?vrows"
    unfolding lo_def lengths_out_of_def by (rule rows_of_concat [OF lr ol])
  have "map (\<lambda>s. lo ! s) S = concat (select_columns (rows_of ?K ?N lo) cols)"
    unfolding S_def by (rule select_columns_rows_of [OF len cb, symmetric])
  also have "\<dots> = concat ?vrows"
    by (simp only: ro put_columns_select [OF dc cb ll rl vl])
  also have "\<dots> = lengths other" by (rule concat_rows_of [OF la])
  finally show "map (\<lambda>s. lo ! s) S = lengths other" .
  have "sum_list (concat (put_columns cols ?rows ?vrows))
          + sum_list (concat (select_columns ?rows cols))
        = sum_list (concat ?rows) + sum_list (concat ?vrows)"
    by (rule put_columns_sum [OF dc cb ll rl vl])
  then show "sum_list lo + sum_list (map (\<lambda>s. lengths orig ! s) S)
           = sum_list (lengths orig) + sum_list (lengths other)"
    unfolding lo_def lengths_out_of_def S_def
    by (simp only: select_columns_rows_of [OF fo(2) cb] concat_rows_of [OF fo(2)]
        concat_rows_of [OF la])
  show "distinct S" unfolding S_def by (rule distinct_places [OF dc cb])
  show "\<forall>s \<in> set S. s < length lo"
    unfolding S_def len using places_bound [OF cb] by blast
  show "\<forall>s \<in> set S. s < length (lengths orig)"
    unfolding S_def fo(2) using places_bound [OF cb] by blast
qed

lemma setitem_contents_result:
  assumes io: "layout_invariant orig" and ia: "layout_invariant other"
    and ke: "keys other = keys orig"
    and cols: "norm_cols (batch_size_of orig) idx = Inr cols" and dc: "distinct cols"
    and m: "batch_size_of other = length idx"
  defines "S \<equiv> places (length (keys orig)) (batch_size_of orig) cols"
    and "lo \<equiv> lengths_out_of orig cols other"
  shows "setitem_contents junk_v junk_w orig idx other =
     (if sum_list (lengths orig) = 1 \<or> batch_size_of orig = 0 \<or> sum_list lo = 1
      then Inl IndexError
      else Inr (KeyedJaggedTensor
        (written junk_v (offsets orig) S (values orig) (0 # cumsum lo) lo (values other))
        (keys orig)
        (written junk_w (offsets orig) S (weights orig) (0 # cumsum lo) lo (weights other))
        lo))"
proof -
  let ?K = "length (keys orig)" and ?N = "batch_size_of orig" and ?T = "sum_list (lengths orig)"
  let ?off = "offsets orig" and ?off' = "0 # cumsum lo" and ?T' = "sum_list lo"
  let ?rows = "rows_of ?K ?N (lengths orig)"
  let ?vrows = "rows_of ?K (length idx) (lengths other)"
  let ?keep = "filter (\<lambda>p. \<not> selected ?off S p) [0..<?T]"
  let ?nkeep = "filter (\<lambda>p. \<not> selected ?off' S p) [0..<?T']"
  let ?nelts = "filter (selected ?off' S) [0..<?T']"
  note fo = invariant_facts [OF io] and fa = invariant_facts [OF ia]
  have nc: "length cols = length idx" and cb: "\<forall>c \<in> set cols. c < ?N"
    using norm_cols_Inr [OF cols] by simp_all
  have m': "batch_size_of other = length cols" using m nc by simp
  note wc = write_counts [OF io ia ke cb dc m', folded S_def lo_def]
  have k1: "(length (keys orig) = 0) = False" using fo(1) by simp
  have k2: "(length (keys other) = 0) = False" using fo(1) ke by simp
  have ke': "(keys other \<noteq> keys orig) = False" using ke by simp
  have n2: "length (lengths other) div length (keys other) = length idx"
    using fa(7) m by simp
  have la: "length (lengths other) = ?K * length idx" using fa(2) ke m by simp
  have v_rows: "view ?K ?N (lengths orig) = Inr ?rows" by (rule view_ok [OF fo(2)])
  have v_vrows: "view ?K (length idx) (lengths other) = Inr ?vrows" by (rule view_ok [OF la])
  have vl: "\<forall>w \<in> set ?vrows. length w = length idx"
    using rows_of_row_length [OF la] by blast
  have sc: "setitem_columns ?N ?rows idx ?vrows = Inr (put_columns cols ?rows ?vrows)"
    by (rule setitem_columns_ok [OF cols vl])
  have lo_eq: "concat (put_columns cols ?rows ?vrows) = lo"
    unfolding lo_def lengths_out_of_def nc ..
  have v1: "view ?K ?N (butlast ?off) = Inr (rows_of ?K ?N (butlast ?off))"
    by (rule view_ok) (simp only: length_butlast fo(3) diff_Suc_1)
  have v2: "view ?K ?N (drop 1 ?off) = Inr (rows_of ?K ?N (drop 1 ?off))"
    by (rule view_ok) (simp only: length_drop fo(3) diff_Suc_1)
  have sn: "sel_none (select_columns (rows_of ?K ?N (butlast ?off)) cols)
                     (select_columns (rows_of ?K ?N (drop 1 ?off)) cols)
              = (\<lambda>p. \<not> selected ?off S p)"
    unfolding S_def by (rule sel_none_selected [OF fo(3) cb])
  have g1: "gather (values orig) ?keep = Inr (map (\<lambda>p. values orig ! p) ?keep)"
    by (rule gather_ok) (simp add: fo(5) [symmetric])
  have g2: "gather (weights orig) ?keep = Inr (map (\<lambda>p. weights orig ! p) ?keep)"
    by (rule gather_ok) (simp add: fo(6) [symmetric])
  have lo': "length ?off' = Suc (?K * ?N)" using wc(1) by simp
  have w1: "view ?K ?N (butlast ?off') = Inr (rows_of ?K ?N (butlast ?off'))"
    by (rule view_ok) (simp only: length_butlast lo' diff_Suc_1)
  have w2: "view ?K ?N (drop 1 ?off') = Inr (rows_of ?K ?N (drop 1 ?off'))"
    by (rule view_ok) (simp only: length_drop lo' diff_Suc_1)
  have sa': "sel_any (select_columns (rows_of ?K ?N (butlast ?off')) cols)
                     (select_columns (rows_of ?K ?N (drop 1 ?off')) cols)
              = selected ?off' S"
    unfolding S_def by (rule sel_any_selected [OF lo' cb])
  have sn': "sel_none (select_columns (rows_of ?K ?N (butlast ?off')) cols)
                      (select_columns (rows_of ?K ?N (drop 1 ?off')) cols)
              = (\<lambda>p. \<not> selected ?off' S p)"
    unfolding S_def by (rule sel_none_selected [OF lo' cb])
  have le': "last_elem ?off' = Inr ?T'"
    unfolding last_elem_def by (simp only: offsets_last list.distinct if_False)
  have c_old: "length ?keep + sum_list (map (\<lambda>s. lengths orig ! s) S) = ?T"
    unfolding fo(4) by (rule count_not_selected [OF wc(4) wc(6)])
  have c_new: "length ?nkeep + sum_list (map (\<lambda>s. lo ! s) S) = ?T'"
    by (rule count_not_selected [OF wc(4) wc(5)])
  have c_sel: "length ?nelts = sum_list (map (\<lambda>s. lo ! s) S)"
    by (rule count_selected [OF wc(4) wc(5)])
  have L: "sum_list (map (\<lambda>s. lo ! s) S) = length (values other)"
    by (simp only: wc(2) fa(5))
  have Lw: "length (weights other) = length (values other)"
    using fa(5,6) by simp
  have e1: "length ?nelts = length (values other)" using c_sel L by simp
  have e2: "length ?nkeep = length ?keep"
    using c_old c_new wc(3) L fa(5) by linarith
  have tot: "?T' = length ?keep + length (values other)"
    using c_new L e2 by linarith
  let ?numel = "length ?keep + length (values other)"
  have b1: "\<forall>p \<in> set ?nkeep. p < ?numel" unfolding tot [symmetric] by simp
  have b2: "\<forall>p \<in> set ?nelts. p < ?numel" unfolding tot [symmetric] by simp
  have ip1: "index_put (empty junk_v ?numel) ?nkeep (map (\<lambda>p. values orig ! p) ?keep)
               = Inr (put_all ?nkeep (map (\<lambda>p. values orig ! p) ?keep) (empty junk_v ?numel))"
  proof (rule index_put_ok)
    show "length (map (\<lambda>p. values orig ! p) ?keep) = length ?nkeep" by (simp only: length_map e2)
    show "\<forall>p \<in> set ?nkeep. p < length (empty junk_v ?numel)"
      unfolding length_empty by (rule b1)
  qed
  have ip2: "index_put (put_all ?nkeep (map (\<lambda>p. values orig ! p) ?keep) (empty junk_v ?numel))
                ?nelts (values other)
               = Inr (put_all ?nelts (values other)
                   (put_all ?nkeep (map (\<lambda>p. values orig ! p) ?keep) (empty junk_v ?numel)))"
  proof (rule index_put_ok)
    show "length (values other) = length ?nelts" by (simp only: e1)
    show "\<forall>p \<in> set ?nelts. p < length (put_all ?nkeep (map (\<lambda>p. values orig ! p) ?keep)
        (empty junk_v ?numel))"
      unfolding length_put_all length_empty by (rule b2)
  qed
  have iq1: "index_put (empty junk_w ?numel) ?nkeep (map (\<lambda>p. weights orig ! p) ?keep)
               = Inr (put_all ?nkeep (map (\<lambda>p. weights orig ! p) ?keep) (empty junk_w ?numel))"
  proof (rule index_put_ok)
    show "length (map (\<lambda>p. weights orig ! p) ?keep) = length ?nkeep" by (simp only: length_map e2)
    show "\<forall>p \<in> set ?nkeep. p < length (empty junk_w ?numel)"
      unfolding length_empty by (rule b1)
  qed
  have iq2: "index_put (put_all ?nkeep (map (\<lambda>p. weights orig ! p) ?keep) (empty junk_w ?numel))
                ?nelts (weights other)
               = Inr (put_all ?nelts (weights other)
                   (put_all ?nkeep (map (\<lambda>p. weights orig ! p) ?keep) (empty junk_w ?numel)))"
  proof (rule index_put_ok)
    show "length (weights other) = length ?nelts" by (simp only: e1 Lw)
    show "\<forall>p \<in> set ?nelts. p < length (put_all ?nkeep (map (\<lambda>p. weights orig ! p) ?keep)
        (empty junk_w ?numel))"
      unfolding length_put_all length_empty by (rule b2)
  qed
  have lenv: "length (map (\<lambda>p. values orig ! p) ?keep) = length ?keep"
    and lenw: "length (map (\<lambda>p. weights orig ! p) ?keep) = length ?keep" by simp_all
  have wv: "written junk_v ?off S (values orig) ?off' lo (values other)
      = put_all ?nelts (values other)
          (put_all ?nkeep (map (\<lambda>p. values orig ! p) ?keep) (empty junk_v ?numel))"
    unfolding written_def fo(5) ..
  have ww: "written junk_w ?off S (weights orig) ?off' lo (weights other)
      = put_all ?nelts (weights other)
          (put_all ?nkeep (map (\<lambda>p. weights orig ! p) ?keep) (empty junk_w ?numel))"
    unfolding written_def fo(6) Lw ..
  note steps = k1 k2 ke' if_False if_True fo(7) n2 v_rows v_vrows sc
    on_ok_simps lo_eq fo(8) v1 v2 getitem_columns_ok [OF cols] sn squeeze_select_cases
    g1 g2 w1 w2 sa' sn' lenv lenw Lw ip1 ip2 iq1 iq2 wv [symmetric] ww [symmetric]
  show ?thesis
  proof (cases "?T = 1")
    case True
    then have c: "(?T = 1) = True" by simp
    show ?thesis
      unfolding setitem_contents_def Let_def
      by (simp only: steps c simp_thms)
  next
    case t: False
    then have c: "(?T = 1) = False" by simp
    show ?thesis
    proof (cases "?N = 0")
      case True
      then have "lo = []" using wc(1) by simp
      then have no: "cumsum (map (\<lambda>x. x * 0) (take 1 lo) @ lo) = []"
        by (simp add: cumsum_def)
      have n: "(?N = 0) = True" using True by simp
      show ?thesis
        unfolding setitem_contents_def Let_def
        by (simp only: steps c n no last_elem_Nil simp_thms)
    next
      case False
      then have n: "(?N = 0) = False" by simp
      have "lo \<noteq> []" using wc(1) False fo(1) by auto
      then have no: "cumsum (map (\<lambda>x. x * 0) (take 1 lo) @ lo) = ?off'"
        by (rule code_offsets)
      show ?thesis
      proof (cases "?T' = 1")
        case True
        then have c': "(?T' = 1) = True" by simp
        show ?thesis
          unfolding setitem_contents_def Let_def
          by (simp only: steps c n no le' c' simp_thms)
      next
        case False
        then have c': "(?T' = 1) = False" by simp
        show ?thesis
          unfolding setitem_contents_def Let_def
          by (simp only: steps c n no le' c' simp_thms)
      qed
    qed
  qed
qed

lemma length_places: "length (places K N cols) = K * length cols"
  by (induction K) (simp_all add: places_def)

lemma kjt_eq:
  "KeyedJaggedTensor (values t) (keys t) (weights t) (lengths t) = t"
  if "offsets t = 0 # cumsum (lengths t)" for t :: "('v, 'w) kjt"
  using that by (simp add: KeyedJaggedTensor_def)

lemma KeyedJaggedTensor_sel [simp]:
  "keys (KeyedJaggedTensor vs ks ws ls) = ks"
  "values (KeyedJaggedTensor vs ks ws ls) = vs"
  "weights (KeyedJaggedTensor vs ks ws ls) = ws"
  "lengths (KeyedJaggedTensor vs ks ws ls) = ls"
  "offsets (KeyedJaggedTensor vs ks ws ls) = 0 # cumsum ls"
  by (simp_all add: KeyedJaggedTensor_def)

lemma layout_invariant_KeyedJaggedTensor:
  assumes "0 < length ks" and "length ls = length ks * n"
    and "sum_list ls = length vs" and "length vs = length ws"
  shows "layout_invariant (KeyedJaggedTensor vs ks ws ls)"
    and "batch_size_of (KeyedJaggedTensor vs ks ws ls) = n"
proof -
  show b: "batch_size_of (KeyedJaggedTensor vs ks ws ls) = n"
    using assms(1,2) by (simp add: batch_size_of_def)
  show "layout_invariant (KeyedJaggedTensor vs ks ws ls)"
    unfolding layout_invariant_def b using assms by simp
qed

text \<open>Reading rows of a well-formed field whose buffer does not hold exactly one value.\<close>

lemma index_keyedjaggedtensor_invariant:
  assumes inv: "layout_invariant t"
    and cols: "norm_cols (batch_size_of t) idx = Inr cols" and dc: "distinct cols"
    and T: "sum_list (lengths t) \<noteq> 1"
  shows "\<exists>r. index_keyedjaggedtensor True t (ListIndex idx) = Inr r
           \<and> layout_invariant r \<and> batch_size_of r = length idx \<and> keys r = keys t"
proof -
  let ?K = "length (keys t)" and ?N = "batch_size_of t"
  let ?S = "places ?K ?N cols"
  let ?ps = "filter (selected (offsets t) ?S) [0..<sum_list (lengths t)]"
  note f = invariant_facts [OF inv]
  have nc: "length cols = length idx" and cb: "\<forall>c \<in> set cols. c < ?N"
    using norm_cols_Inr [OF cols] by simp_all
  have dS: "distinct ?S" by (rule distinct_places [OF dc cb])
  have bS: "\<forall>s \<in> set ?S. s < length (lengths t)"
    unfolding f(2) using places_bound [OF cb] by blast
  have cnt: "length ?ps = sum_list (map (\<lambda>s. lengths t ! s) ?S)"
    unfolding f(4) by (rule count_selected [OF dS bS])
  have l: "length (map (\<lambda>s. lengths t ! s) ?S) = ?K * length idx"
    by (simp add: length_places nc)
  have s: "sum_list (map (\<lambda>s. lengths t ! s) ?S) = length (map (\<lambda>p. values t ! p) ?ps)"
    using cnt by simp
  have w: "length (map (\<lambda>p. values t ! p) ?ps) = length (map (\<lambda>p. weights t ! p) ?ps)"
    by simp
  show ?thesis
    unfolding index_keyedjaggedtensor_list [OF inv cols T]
    using layout_invariant_KeyedJaggedTensor [OF f(1) l s w] by simp
qed

text \<open>Writing back what was read.\<close>

lemma written_same:
  assumes "length xs = T" and that: "off' = off" "sum_list ls = T"
  shows "written junk off S xs off' ls (map (\<lambda>p. xs ! p) (filter (selected off S) [0..<T]))
           = xs"
proof -
  let ?ps = "filter (selected off S) [0..<T]"
  let ?keep = "filter (\<lambda>p. \<not> selected off S p) [0..<T]"
  let ?e = "empty junk (length ?keep + length (map (\<lambda>p. xs ! p) ?ps))"
  let ?t1 = "put_all ?keep (map (\<lambda>p. xs ! p) ?keep) ?e"
  have tot: "length ?ps + length ?keep = T"
    using sum_length_filter_compl [of "selected off S" "[0..<T]"] by simp
  have le: "length ?e = T" using tot by simp
  have w: "written junk off S xs off' ls (map (\<lambda>p. xs ! p) ?ps)
             = put_all ?ps (map (\<lambda>p. xs ! p) ?ps) ?t1"
    unfolding written_def that assms(1) ..
  show ?thesis unfolding w
  proof (rule nth_equalityI)
    show "length (put_all ?ps (map (\<lambda>p. xs ! p) ?ps) ?t1) = length xs"
      unfolding length_put_all le assms(1) ..
  next
    fix q assume "q < length (put_all ?ps (map (\<lambda>p. xs ! p) ?ps) ?t1)"
    then have q: "q < T" unfolding length_put_all le .
    have b1: "\<forall>p \<in> set ?ps. p < length ?t1"
      unfolding length_put_all le by simp
    have b2: "\<forall>p \<in> set ?keep. p < length ?e"
      unfolding le by simp
    have 1: "put_all ?ps (map (\<lambda>p. xs ! p) ?ps) ?t1 ! q
               = (if q \<in> set ?ps then xs ! q else ?t1 ! q)"
      by (rule put_all_map_nth [OF b1]) (simp only: length_put_all le q)
    have 2: "?t1 ! q = (if q \<in> set ?keep then xs ! q else ?e ! q)"
      by (rule put_all_map_nth [OF b2]) (simp only: le q)
    have "q \<in> set ?ps \<or> q \<in> set ?keep" using q by auto
    then show "put_all ?ps (map (\<lambda>p. xs ! p) ?ps) ?t1 ! q = xs ! q"
      unfolding 1 2 by auto
  qed
qed

lemma length_written:
  "length (written junk off S xs off' lo ys)
     = length (filter (\<lambda>p. \<not> selected off S p) [0..<length xs]) + length ys"
  by (simp add: written_def)

lemma write_total:
  assumes io: "layout_invariant orig" and ia: "layout_invariant other"
    and ke: "keys other = keys orig"
    and cb: "\<forall>c \<in> set cols. c < batch_size_of orig" and dc: "distinct cols"
    and m: "batch_size_of other = length cols"
  shows "sum_list (lengths_out_of orig cols other)
     = length (filter (\<lambda>p. \<not> selected (offsets orig)
                  (places (length (keys orig)) (batch_size_of orig) cols) p)
                [0..<sum_list (lengths orig)])
       + length (values other)"
proof -
  let ?S = "places (length (keys orig)) (batch_size_of orig) cols"
  let ?lo = "lengths_out_of orig cols other"
  note fo = invariant_facts [OF io] and fa = invariant_facts [OF ia]
  note wc = write_counts [OF io ia ke cb dc m]
  have c_old: "length (filter (\<lambda>p. \<not> selected (offsets orig) ?S p) [0..<sum_list (lengths orig)])
        + sum_list (map (\<lambda>s. lengths orig ! s) ?S) = sum_list (lengths orig)"
    unfolding fo(4) by (rule count_not_selected [OF wc(4) wc(6)])
  have L: "sum_list (map (\<lambda>s. ?lo ! s) ?S) = length (values other)"
    by (simp only: wc(2) fa(5))
  show ?thesis using c_old wc(3) L fa(5) by linarith
qed

lemma setitem_contents_key_mismatch:
  assumes "keys orig \<noteq> []" and "keys other \<noteq> []" and "keys other \<noteq> keys orig"
  shows "setitem_contents junk_v junk_w orig idx other
           = Inl (KeyError ''Mismatch in orig_tensor and other keys.'')"
  using assms by (simp add: setitem_contents_def)

lemma setitem_contents_bad_index:
  assumes io: "layout_invariant orig" and ia: "layout_invariant other"
    and ke: "keys other = keys orig" and m: "batch_size_of other = length idx"
    and bad: "norm_cols (batch_size_of orig) idx = Inl e"
  shows "setitem_contents junk_v junk_w orig idx other = Inl e"
proof -
  let ?K = "length (keys orig)" and ?N = "batch_size_of orig"
  let ?rows = "rows_of ?K ?N (lengths orig)"
  let ?vrows = "rows_of ?K (length idx) (lengths other)"
  note fo = invariant_facts [OF io] and fa = invariant_facts [OF ia]
  have k1: "(length (keys orig) = 0) = False" using fo(1) by simp
  have k2: "(length (keys other) = 0) = False" using fo(1) ke by simp
  have ke': "(keys other \<noteq> keys orig) = False" using ke by simp
  have n2: "length (lengths other) div length (keys other) = length idx"
    using fa(7) m by simp
  have la: "length (lengths other) = ?K * length idx" using fa(2) ke m by simp
  have v_rows: "view ?K ?N (lengths orig) = Inr ?rows" by (rule view_ok [OF fo(2)])
  have v_vrows: "view ?K (length idx) (lengths other) = Inr ?vrows" by (rule view_ok [OF la])
  have vl: "\<forall>w \<in> set ?vrows. length w = length idx"
    using rows_of_row_length [OF la] by blast
  have sc: "setitem_columns ?N ?rows idx ?vrows = Inl e"
    unfolding setitem_columns_def by (simp only: broadcast_rows_ok [OF vl] bad on_ok_simps)
  show ?thesis
    unfolding setitem_contents_def Let_def
    by (simp only: k1 k2 ke' if_False fo(7) n2 v_rows v_vrows sc on_ok_simps)
qed

lemma roundtrip_contents:
  assumes inv: "layout_invariant t"
    and cols: "norm_cols (batch_size_of t) idx = Inr cols" and dc: "distinct cols"
    and T: "sum_list (lengths t) \<noteq> 1" and N: "batch_size_of t \<noteq> 0"
    and r: "index_keyedjaggedtensor True t (ListIndex idx) = Inr r"
  shows "setitem_contents junk_v junk_w t idx r = Inr t"
proof -
  let ?K = "length (keys t)" and ?N = "batch_size_of t" and ?T = "sum_list (lengths t)"
  let ?S = "places ?K ?N cols"
  let ?ps = "filter (selected (offsets t) ?S) [0..<?T]"
  let ?rows = "rows_of ?K ?N (lengths t)"
  note f = invariant_facts [OF inv]
  have nc: "length cols = length idx" and cb: "\<forall>c \<in> set cols. c < ?N"
    using norm_cols_Inr [OF cols] by simp_all
  have r_eq: "r = KeyedJaggedTensor (map (\<lambda>p. values t ! p) ?ps) (keys t)
                     (map (\<lambda>p. weights t ! p) ?ps) (map (\<lambda>s. lengths t ! s) ?S)"
    using r unfolding index_keyedjaggedtensor_list [OF inv cols T] by simp
  obtain r' where r': "index_keyedjaggedtensor True t (ListIndex idx) = Inr r'"
    "layout_invariant r'" "batch_size_of r' = length idx" "keys r' = keys t"
    using index_keyedjaggedtensor_invariant [OF inv cols dc T] by blast
  have rr: "r' = r" using r r'(1) by simp
  note ri = r'(2,3,4) [unfolded rr]
  have rl: "\<forall>x \<in> set ?rows. length x = ?N"
    using rows_of_row_length [OF f(2)] by blast
  have lr: "lengths r = concat (select_columns ?rows cols)"
    unfolding r_eq by (simp only: KeyedJaggedTensor_sel select_columns_rows_of [OF f(2) cb])
  have sl: "length (select_columns ?rows cols) = ?K"
    by (simp add: select_columns_def)
  have sr: "\<forall>x \<in> set (select_columns ?rows cols). length x = length cols"
    by (auto simp: select_columns_def)
  have lo: "lengths_out_of t cols r = lengths t"
    unfolding lengths_out_of_def lr
    by (simp only: rows_of_concat [OF sl sr] put_columns_same [OF rl cb] concat_rows_of [OF f(2)])
  have c: "(?T = 1 \<or> ?N = 0 \<or> ?T = 1) = False" using T N by simp
  have vr: "values r = map (\<lambda>p. values t ! p) ?ps"
    and wr: "weights r = map (\<lambda>p. weights t ! p) ?ps"
    unfolding r_eq by simp_all
  have wv: "written junk_v (offsets t) ?S (values t) (0 # cumsum (lengths t)) (lengths t)
              (map (\<lambda>p. values t ! p) ?ps) = values t"
    by (rule written_same [OF f(5) [symmetric] f(4) [symmetric] refl])
  have ww: "written junk_w (offsets t) ?S (weights t) (0 # cumsum (lengths t)) (lengths t)
              (map (\<lambda>p. weights t ! p) ?ps) = weights t"
    by (rule written_same [OF f(6) [symmetric] f(4) [symmetric] refl])
  show ?thesis
    unfolding setitem_contents_result [OF inv ri(1) ri(3) cols dc ri(2)] lo c vr wr wv ww
    by (simp only: if_False kjt_eq [OF f(4)])
qed

section \<open>Reading a ragged field\<close>

text \<open>
  An integer index is rejected: with the library of the ragged fields present the error is
  the \<^verbatim>\<open>ValueError\<close> that tells the caller to pass a tensor of one index, and without it
  the \<^verbatim>\<open>ImportError\<close> of the first check.
\<close>

lemma index_keyedjaggedtensor_int:
  "index_keyedjaggedtensor True t (IntIndex i) = Inl (ValueError integer_index_message)"
  by (simp add: index_keyedjaggedtensor_def)

lemma index_keyedjaggedtensor_int_error:
  "\<exists>e. index_keyedjaggedtensor has_torchrec t (IntIndex i) = Inl e"
  by (simp add: index_keyedjaggedtensor_def)

text \<open>
  A list of one position in range, on a well-formed field whose buffer does not hold
  exactly one value, gives a well-formed field of batch size 1.
\<close>

lemma index_keyedjaggedtensor_single:
  assumes inv: "layout_invariant t"
    and i: "- int (batch_size_of t) \<le> i" "i < int (batch_size_of t)"
    and T: "sum_list (lengths t) \<noteq> 1"
  shows "\<exists>r. index_keyedjaggedtensor True t (ListIndex [i]) = Inr r
           \<and> layout_invariant r \<and> batch_size_of r = 1 \<and> keys r = keys t"
proof -
  have "norm_cols (batch_size_of t) [i] = Inr (map (\<lambda>i. nat (i mod int (batch_size_of t))) [i])"
    by (rule norm_cols_in_range) (simp add: i)
  from index_keyedjaggedtensor_invariant [OF inv this _ T] show ?thesis by simp
qed

text \<open>
  Claim C7 at a failing input. The field \<open>field_one\<close> satisfies the layout invariant, has
  batch size 4 and holds one value in all. Reading it with the list \<open>[1]\<close>, which is in
  range, raises \<^verbatim>\<open>IndexError\<close>: \<^verbatim>\<open>torch.arange(1).view(1, 1, -1).squeeze()\<close> has no dimension
  left for the mask to index.
\<close>

theorem index_keyedjaggedtensor_single_value_fails:
  "layout_invariant field_one \<and> batch_size_of field_one = 4
   \<and> index_keyedjaggedtensor True field_one (ListIndex [1]) = Inl IndexError"
  by code_simp

section \<open>Reading rows and writing them back\<close>

text \<open>
  On a well-formed field of batch size 4 whose buffer does not hold exactly one value,
  reading the rows \<open>[1, 3]\<close> and writing the result back at \<open>[1, 3]\<close> returns the reference
  of the target and leaves the store, hence keys, lengths, offsets, values and weights of
  the target, as they were, whatever the fresh buffers held.
\<close>

lemma roundtrip_rows_1_3:
  assumes inv: "layout_invariant (st orig_tensor)"
    and N: "batch_size_of (st orig_tensor) = 4"
    and T: "sum_list (lengths (st orig_tensor)) \<noteq> 1"
    and r: "index_keyedjaggedtensor True (st orig_tensor) (ListIndex [1, 3]) = Inr (st other)"
  shows "setitem_keyedjaggedtensor junk_v junk_w st orig_tensor [1, 3] other
           = (Inr orig_tensor, st)"
proof -
  have c: "norm_cols (batch_size_of (st orig_tensor)) [1, 3] = Inr [1, 3]"
    unfolding N by code_simp
  have "setitem_contents junk_v junk_w (st orig_tensor) [1, 3] (st other) = Inr (st orig_tensor)"
    by (rule roundtrip_contents [OF inv c _ T _ r]) (simp_all add: N)
  then show ?thesis by (simp add: setitem_keyedjaggedtensor_def)
qed

text \<open>
  Claim C4 at a failing input. The field \<open>field_one\<close> has the keys \<open>a\<close> and \<open>b\<close> and
  batch size 4, satisfies the layout invariant and holds one value in all. Reading its
  rows \<open>[1, 3]\<close> raises \<^verbatim>\<open>IndexError\<close>, so there is nothing to write back.
\<close>

theorem roundtrip_single_value_fails:
  "layout_invariant field_one \<and> keys field_one = [''a'', ''b''] \<and> batch_size_of field_one = 4
   \<and> index_keyedjaggedtensor True field_one (ListIndex [1, 3]) = Inl IndexError"
  by code_simp

section \<open>Writing with other keys\<close>

text \<open>
  When the target and the replacement have at least one key each and their key sets
  differ, the write raises the \<^verbatim>\<open>KeyError\<close> "Mismatch in orig_tensor and other keys." and
  the store, hence every buffer and every metadata of the target, is as it was.
\<close>

lemma setitem_keyedjaggedtensor_key_mismatch:
  assumes "set (keys (st other)) \<noteq> set (keys (st orig_tensor))"
    and "keys (st orig_tensor) \<noteq> []" and "keys (st other) \<noteq> []"
  shows "setitem_keyedjaggedtensor junk_v junk_w st orig_tensor index other
           = (Inl (KeyError ''Mismatch in orig_tensor and other keys.''), st)"
proof -
  have "keys (st other) \<noteq> keys (st orig_tensor)" using assms(1) by auto
  from setitem_contents_key_mismatch [OF assms(2,3) this]
  show ?thesis by (simp add: setitem_keyedjaggedtensor_def)
qed

lemma setitem_keyedjaggedtensor_key_mismatch_example:
  "setitem_keyedjaggedtensor (\<lambda>p. 0) (\<lambda>p. 0) (two_fields field_ab field_ac) 0 [1, 3] 1
     = (Inl (KeyError ''Mismatch in orig_tensor and other keys.''), two_fields field_ab field_ac)"
proof -
  have "set (keys (two_fields field_ab field_ac 1)) \<noteq> set (keys (two_fields field_ab field_ac 0))"
    "keys (two_fields field_ab field_ac 0) \<noteq> []" "keys (two_fields field_ab field_ac 1) \<noteq> []"
    by code_simp+
  then show ?thesis by (rule setitem_keyedjaggedtensor_key_mismatch)
qed

text \<open>
  The comparison of the keys is preceded by the two divisions by the number of keys
  (\<^verbatim>\<open>len(lengths) // len(keys)\<close>, of the target and of the replacement). When the target or
  the replacement has no key, the write raises \<^verbatim>\<open>ZeroDivisionError\<close> and never reaches the
  comparison; the store is as it was.
\<close>

lemma setitem_keyedjaggedtensor_no_keys:
  assumes "keys (st orig_tensor) = [] \<or> keys (st other) = []"
  shows "setitem_keyedjaggedtensor junk_v junk_w st orig_tensor index other
           = (Inl ZeroDivisionError, st)"
proof -
  have "setitem_contents junk_v junk_w (st orig_tensor) index (st other) = Inl ZeroDivisionError"
    using assms by (auto simp: setitem_contents_def)
  then show ?thesis by (simp add: setitem_keyedjaggedtensor_def)
qed

text \<open>
  Claim C8 at a failing input. The target \<open>field_ab\<close> is a well-formed field with the keys
  \<open>a\<close> and \<open>b\<close>; the replacement \<open>field_no_keys\<close> is the field without keys and without
  values (its offsets are the cumulative sums of its lengths prefixed by 0, and its
  lengths add up to the number of its values and of its weights), so its key set differs
  from the target's. The write raises \<^verbatim>\<open>ZeroDivisionError\<close>, not the \<^verbatim>\<open>KeyError\<close> of the key
  comparison. The store is unchanged.
\<close>

theorem setitem_keyedjaggedtensor_no_keys_fails:
  "layout_invariant field_ab
   \<and> offsets field_no_keys = 0 # cumsum (lengths field_no_keys)
   \<and> sum_list (lengths field_no_keys) = length (values field_no_keys)
   \<and> length (values field_no_keys) = length (weights field_no_keys)
   \<and> set (keys field_no_keys) \<noteq> set (keys field_ab)
   \<and> setitem_keyedjaggedtensor (\<lambda>p. 0) (\<lambda>p. 0) (two_fields field_ab field_no_keys) 0 [1, 3] 1
       = (Inl ZeroDivisionError, two_fields field_ab field_no_keys)"
proof -
  have "setitem_contents (\<lambda>p. 0) (\<lambda>p. 0) field_ab [1, 3] field_no_keys = Inl ZeroDivisionError"
    by code_simp
  moreover have "set (keys field_no_keys) \<noteq> set (keys field_ab)" by code_simp
  moreover have "layout_invariant field_ab" by code_simp
  moreover have "offsets field_no_keys = 0 # cumsum (lengths field_no_keys)"
    "sum_list (lengths field_no_keys) = length (values field_no_keys)"
    "length (values field_no_keys) = length (weights field_no_keys)"
    by code_simp+
  ultimately show ?thesis by (simp add: setitem_keyedjaggedtensor_def two_fields_def)
qed

section \<open>Writing in place\<close>

text \<open>
  Claim C5 as stated fails twice. First, after the successful write of \<open>field_rows\<close> at
  the rows \<open>[1, 3]\<close> of \<open>field_ab\<close> no reading of "each offsets column is the cumulative
  sum of the corresponding lengths column prefixed by 0" holds of the target: the offsets
  run over the flattened lengths, across the columns. Second, a write succeeds that does
  not restore \<open>sum(lengths) = len(values)\<close>: the replacement \<open>field_single\<close> has one row
  and one value, the index \<open>[]\<close> selects no row, the value broadcasts to the empty
  selection and the new buffer has one element more than the lengths add up to.
\<close>

theorem setitem_keyedjaggedtensor_invariant_counterexample:
  "fst (setitem_keyedjaggedtensor (\<lambda>p. 0) (\<lambda>p. 0) (two_fields field_ab field_rows) 0 [1, 3] 1)
     = Inr 0
   \<and> \<not> offsets_columnwise
       (snd (setitem_keyedjaggedtensor (\<lambda>p. 0) (\<lambda>p. 0) (two_fields field_ab field_rows) 0 [1, 3] 1) 0)
   \<and> layout_invariant field_pair \<and> layout_invariant field_single
   \<and> fst (setitem_keyedjaggedtensor (\<lambda>p. 0) (\<lambda>p. 0) (two_fields field_pair field_single) 0 [] 1)
     = Inr 0
   \<and> sum_list (lengths
         (snd (setitem_keyedjaggedtensor (\<lambda>p. 0) (\<lambda>p. 0) (two_fields field_pair field_single) 0 [] 1) 0))
       \<noteq> length (values
         (snd (setitem_keyedjaggedtensor (\<lambda>p. 0) (\<lambda>p. 0) (two_fields field_pair field_single) 0 [] 1) 0))"
  by code_simp

text \<open>
  Claim C5, amended. Let the target and the replacement satisfy the layout invariant,
  the replacement have as many rows as the index has positions, and the positions be
  pairwise different columns. Then every successful write returns the reference that was
  passed in, changes the store at that reference only, keeps the keys and the batch size
  of the target and leaves it with the layout invariant: \<open>K * N\<close> lengths, \<open>K * N + 1\<close>
  offsets that are the cumulative sums of the flattened lengths prefixed by 0, and
  \<open>sum(lengths) = len(values) = len(weights)\<close>.
\<close>

theorem setitem_keyedjaggedtensor_in_place:
  assumes io: "layout_invariant (st orig_tensor)" and ia: "layout_invariant (st other)"
    and m: "batch_size_of (st other) = length index"
    and d: "distinct (map (\<lambda>i. nat (i mod int (batch_size_of (st orig_tensor)))) index)"
    and ok: "setitem_keyedjaggedtensor junk_v junk_w st orig_tensor index other = (Inr r, st')"
  shows "r = orig_tensor
       \<and> st' = st(orig_tensor := st' orig_tensor)
       \<and> keys (st' r) = keys (st r)
       \<and> batch_size_of (st' r) = batch_size_of (st r)
       \<and> layout_invariant (st' r)"
proof -
  let ?o = "st orig_tensor" and ?a = "st other"
  let ?K = "length (keys ?o)" and ?N = "batch_size_of ?o"
  note fo = invariant_facts [OF io] and fa = invariant_facts [OF ia]
  from ok obtain X where X: "setitem_contents junk_v junk_w ?o index ?a = Inr X"
    and r: "r = orig_tensor" and st': "st' = st(orig_tensor := X)"
    by (auto simp: setitem_keyedjaggedtensor_def split: sum.splits)
  have ke: "keys ?a = keys ?o"
  proof (rule ccontr)
    assume "keys ?a \<noteq> keys ?o"
    moreover have "keys ?o \<noteq> []" "keys ?a \<noteq> []" using fo(1) fa(1) by auto
    ultimately show False
      using X setitem_contents_key_mismatch [of ?o ?a junk_v junk_w index] by simp
  qed
  obtain cols where cols: "norm_cols ?N index = Inr cols"
  proof (cases "norm_cols ?N index")
    case (Inl e)
    then show ?thesis
      using X setitem_contents_bad_index [OF io ia ke m Inl, of junk_v junk_w] by simp
  next
    case (Inr cols)
    then show ?thesis by (rule that)
  qed
  have nc: "length cols = length index" and cb: "\<forall>c \<in> set cols. c < ?N"
    and ce: "cols = map (\<lambda>i. nat (i mod int ?N)) index"
    using norm_cols_Inr [OF cols] by simp_all
  have dc: "distinct cols" using d ce by simp
  have m': "batch_size_of ?a = length cols" using m nc by simp
  let ?S = "places ?K ?N cols" and ?lo = "lengths_out_of ?o cols ?a"
  let ?vs = "written junk_v (offsets ?o) ?S (values ?o) (0 # cumsum ?lo) ?lo (values ?a)"
  let ?ws = "written junk_w (offsets ?o) ?S (weights ?o) (0 # cumsum ?lo) ?lo (weights ?a)"
  have X_eq: "X = KeyedJaggedTensor ?vs (keys ?o) ?ws ?lo"
    using X unfolding setitem_contents_result [OF io ia ke cols dc m]
    by (simp split: if_splits)
  note wc = write_counts [OF io ia ke cb dc m']
  have tot: "sum_list ?lo = length ?vs"
    unfolding length_written fo(5) [symmetric] by (rule write_total [OF io ia ke cb dc m'])
  have vw: "length ?vs = length ?ws"
    unfolding length_written using fo(5,6) fa(5,6) by simp
  have inv: "layout_invariant X" and bs: "batch_size_of X = ?N"
    unfolding X_eq by (rule layout_invariant_KeyedJaggedTensor [OF fo(1) wc(1) tot vw])+
  have kx: "keys X = keys ?o" unfolding X_eq by simp
  show ?thesis using r st' inv bs kx by simp
qed


theorem setitem_keyedjaggedtensor_in_place_witness:
  "fst (setitem_keyedjaggedtensor (\<lambda>p. 0) (\<lambda>p. 0) (two_fields field_ab field_rows) 0 [1, 3] 1)
     = Inr 0
   \<and> layout_invariant
       (snd (setitem_keyedjaggedtensor (\<lambda>p. 0) (\<lambda>p. 0) (two_fields field_ab field_rows) 0 [1, 3] 1) 0)"
proof -
  let ?st = "two_fields field_ab field_rows"
  let ?res = "setitem_keyedjaggedtensor (\<lambda>p. 0) (\<lambda>p. 0) ?st 0 [1, 3] 1"
  have f: "fst ?res = Inr 0" by code_simp
  then have ok: "?res = (Inr 0, snd ?res)" by (metis prod.collapse)
  have io: "layout_invariant (?st 0)" and ia: "layout_invariant (?st 1)"
    and m: "batch_size_of (?st 1) = length [1, 3 :: int]"
    and d: "distinct (map (\<lambda>i. nat (i mod int (batch_size_of (?st 0)))) [1, 3])"
    by code_simp+
  from setitem_keyedjaggedtensor_in_place [OF io ia m d ok] f show ?thesis by simp
qed

section \<open>Location and scale of \<^verbatim>\<open>NormalParamWrapper\<close>\<close>




text \<open>
  \<open>13743895 / 2 ^ 37\<close> is the number of \<^verbatim>\<open>float32\<close> nearest to \<open>1 / 10000\<close>: its significand
  has 24 bits, and it is less than half a unit of the last place, \<open>1 / 2 ^ 38\<close>, away.
\<close>

lemma float32_1e_4_nearest:
  "(2 :: nat) ^ 23 \<le> 13743895 \<and> (13743895 :: nat) < 2 ^ 24
   \<and> \<bar>1 / 10000 - float32_1e_4\<bar> < 1 / 2 ^ 38"
  by (simp add: float32_1e_4_def)




section \<open>Shape inference and the indexed probe\<close>

subsection \<open>Lemmas\<close>

lemma torch_slice_len_python:
  assumes "torch_slice_len a b c n = Inr k"
  shows "\<exists>s e st. slice_indices a b c (int n) = Inr (s, e, st) \<and> range_len s e st = k"
proof -
  define st where "st = (case c of None \<Rightarrow> 1 | Some s \<Rightarrow> s)"
  have pos: "0 < st"
    using assms by (auto simp: torch_slice_len_def st_def Let_def split: if_splits)
  define s where "s = (case a of None \<Rightarrow> 0
      | Some x \<Rightarrow> (if x < 0 then max (x + int n) 0 else min x (int n)))"
  define e where "e = (case b of None \<Rightarrow> int n
      | Some x \<Rightarrow> (if x < 0 then max (x + int n) 0 else min x (int n)))"
  have py: "slice_indices a b c (int n) = Inr (s, e, st)"
    using pos by (simp add: slice_indices_def st_def [symmetric] s_def e_def Let_def)
  have s0: "0 \<le> s" "s \<le> int n" by (auto simp: s_def split: option.splits)
  have e0: "0 \<le> e" "e \<le> int n" by (auto simp: e_def split: option.splits)
  have ts: "(let s0 = (case a of None \<Rightarrow> 0 | Some x \<Rightarrow> (if x < 0 then x + int n else x))
             in if s0 < 0 then 0 else if int n \<le> s0 then int n else s0) = s"
    by (auto simp: s_def Let_def split: option.splits)
  have te: "(let e0 = (case b of None \<Rightarrow> int n | Some x \<Rightarrow> (if x < 0 then x + int n else x))
             in if e0 < s then s else if int n \<le> e0 then int n else e0) = max e s"
    using s0 by (auto simp: e_def Let_def split: option.splits)
  have "torch_slice_len a b c n = Inr (nat ((max e s - s + st - 1) div st))"
    unfolding torch_slice_len_def Let_def st_def [symmetric] ts [unfolded Let_def] te [unfolded Let_def]
    using pos by simp
  with assms have k: "k = nat ((max e s - s + st - 1) div st)" by simp
  have "range_len s e st = k"
  proof (cases "s < e")
    case True
    then have "max e s - s + st - 1 = (e - s - 1) + st" by simp
    then have "k = nat (((e - s - 1) + st) div st)" by (simp only: k)
    also have "((e - s - 1) + st) div st = (e - s - 1) div st + 1"
      using pos by simp
    finally show ?thesis
      using pos True by (simp add: range_len_def)
  next
    case False
    then have "max e s - s + st - 1 = st - 1" by simp
    moreover have "(st - 1) div st = 0" using pos by simp
    ultimately show ?thesis using pos False by (simp add: k range_len_def)
  qed
  with py show ?thesis by blast
qed


lemma on_ok_Inr_iff: "on_ok m f = Inr y \<longleftrightarrow> (\<exists>x. m = Inr x \<and> f x = Inr y)"
  by (cases m) simp_all

lemma size_of_Basic: "map (size_of \<circ> Basic) shape = shape"
  by (induction shape) simp_all

lemma no_adv_Basic: "filter is_adv (map Basic shape) = []"
  by (induction shape) simp_all

lemma probe_walk_loop:
  assumes "probe_walk idx shape = Inr es" and "list_all in_fragment idx"
  shows "batch_size_loop idx shape bs = Inr (bs @ map size_of es)"
  using assms
proof (induction idx shape arbitrary: es bs rule: probe_walk.induct)
  case (1 shape)
  then have "es = map Basic shape" by simp
  then show ?case by (simp add: size_of_Basic)
next
  case (2 rest shape)
  then show ?case by (auto simp: on_ok_Inr_iff)
next
  case (3 i rest extent shape)
  then show ?case by (auto split: if_splits)
next
  case (4 a b c rest extent shape)
  from 4(2) obtain n es' where n: "torch_slice_len a b c extent = Inr n"
    and w: "probe_walk rest shape = Inr es'" and es: "es = Basic n # es'"
    by (auto simp: on_ok_Inr_iff)
  from torch_slice_len_python [OF n] obtain s e st
    where py: "slice_indices a b c (int extent) = Inr (s, e, st)" and len: "range_len s e st = n"
    by blast
  have "batch_size_loop rest shape (bs @ [n]) = Inr ((bs @ [n]) @ map size_of es')"
    using 4(1) [OF w] 4(3) by simp
  then show ?case by (simp add: py len es)
next
  case (5 l rest extent shape)
  then show ?case by (auto simp: on_ok_Inr_iff split: if_splits)
next
  case (6 m rest extent shape)
  then show ?case by (auto simp: on_ok_Inr_iff split: if_splits)
qed simp_all

lemma probe_walk_arrays:
  assumes "probe_walk idx shape = Inr es" and "list_all in_fragment idx"
  shows "length (filter is_adv es) = length (filter is_array idx)"
  using assms
proof (induction idx shape arbitrary: es rule: probe_walk.induct)
  case (1 shape)
  then show ?case by (auto simp: no_adv_Basic)
next
  case (2 rest shape)
  then show ?case by (auto simp: on_ok_Inr_iff)
next
  case (3 i rest extent shape)
  then show ?case by (auto split: if_splits)
next
  case (4 a b c rest extent shape)
  then show ?case by (auto simp: on_ok_Inr_iff)
next
  case (5 l rest extent shape)
  then show ?case by (auto simp: on_ok_Inr_iff split: if_splits)
next
  case (6 m rest extent shape)
  then show ?case by (auto simp: on_ok_Inr_iff split: if_splits)
qed simp_all

lemma broadcast_sizes_single: "broadcast_sizes [n] = Inr n"
  by (simp add: broadcast_sizes_def)

lemma dropWhile_none:
  assumes "\<forall>x\<in>set xs. \<not> P x"
  shows "dropWhile P xs = xs"
  using assms by (cases xs) simp_all

lemma probe_result_one_array:
  assumes "length (filter is_adv es) \<le> 1"
  shows "probe_result es = Inr (map size_of es)"
proof (cases "filter is_adv es")
  case Nil
  then show ?thesis by (simp add: probe_result_def)
next
  case (Cons a as)
  with assms have as: "as = []" by simp
  from Cons obtain us vs where es: "es = us @ a # vs" and us: "\<forall>u\<in>set us. \<not> is_adv u"
    and a: "is_adv a" and vs: "as = filter is_adv vs"
    by (auto simp: filter_eq_Cons_iff)
  from vs as have "filter is_adv vs = []" by simp
  then have vs': "\<forall>v\<in>set vs. \<not> is_adv v"
    by (simp add: filter_empty_conv)
  have tw: "takeWhile (\<lambda>e. \<not> is_adv e) es = us"
    unfolding es using us a by (simp add: takeWhile_append2)
  have dw: "dropWhile (\<lambda>e. \<not> is_adv e) es = a # vs"
    unfolding es using us a by (simp add: dropWhile_append2)
  have rear: "dropWhile is_adv (a # vs) = vs"
    using a vs' by (simp add: dropWhile_none)
  have advs: "filter is_adv es = [a]" using Cons as by simp
  have all: "list_all (\<lambda>e. \<not> is_adv e) vs" using vs' by (simp add: list_all_iff)
  show ?thesis
    unfolding probe_result_def Let_def advs tw dw rear
    using all by (simp add: broadcast_sizes_single es)
qed



lemma getitem_batch_size_single:
  "getitem_batch_size shape (ITuple [x]) = batch_size_simple shape x"
  by (simp add: getitem_batch_size_def)

lemma getitem_batch_size_empty:
  "getitem_batch_size shape (ITuple []) = batch_size_tuple shape []"
  by (simp add: getitem_batch_size_def)

lemma getitem_batch_size_longer:
  "getitem_batch_size shape (ITuple (x # y # ys)) = batch_size_tuple shape (x # y # ys)"
  by (simp add: getitem_batch_size_def)

lemma batch_size_simple_single:
  assumes "batch_size_loop [x] shape [] = Inr r" and "in_fragment x" and "x \<noteq> IList []"
  shows "batch_size_simple shape x = Inr r"
proof (cases x)
  case (IInt i)
  then show ?thesis using assms(1) by (cases shape) simp_all
next
  case (ISlice a b c)
  then show ?thesis using assms(1) by (simp add: batch_size_tuple_def)
next
  case (IList l)
  then show ?thesis using assms(1,3) by (cases shape) simp_all
next
  case (IBoolTensor m)
  then show ?thesis using assms(1) by (cases shape) simp_all
next
  case INone
  then show ?thesis using assms(1) by (simp add: batch_size_tuple_def)
next
  case (IIntTensor l)
  then show ?thesis using assms(2) by simp
next
  case IEllipsis
  then show ?thesis using assms(2) by simp
next
  case (IStr s)
  then show ?thesis using assms(2) by simp
next
  case (ITuple l)
  then show ?thesis using assms(2) by simp
next
  case (IBoolArray m)
  then show ?thesis using assms(2) by simp
next
  case (IIntArray l)
  then show ?thesis using assms(2) by simp
next
  case (IBoolList m)
  then show ?thesis using assms(2) by simp
qed


lemma is_tensor_is_array: "is_tensor x \<Longrightarrow> is_array x"
  by (cases x) simp_all

lemma batch_size_tuple_longer:
  assumes "batch_size_loop (x # y # ys) shape [] = Inr r"
    and "length (filter is_array (x # y # ys)) \<le> 1"
  shows "batch_size_tuple shape (x # y # ys) = Inr r"
proof -
  have "\<not> (is_tensor x \<and> is_tensor y)"
  proof
    assume "is_tensor x \<and> is_tensor y"
    then have "is_array x" and "is_array y" by (simp_all add: is_tensor_is_array)
    then have "2 \<le> length (filter is_array (x # y # ys))" by simp
    with assms(2) show False by simp
  qed
  then have "\<not> list_all is_tensor (x # y # ys)" by auto
  then show ?thesis
    unfolding batch_size_tuple_def using assms(1) by (simp only: simp_thms if_False)
qed

lemma batch_size_tuple_empty:
  assumes "shape \<noteq> []"
  shows "batch_size_tuple shape [] = Inr shape"
  using assms by (simp add: batch_size_tuple_def)

subsection \<open>The claim\<close>

text \<open>
  Claim C1 as the specification states it, that \<^verbatim>\<open>_getitem_batch_size(S, idx)\<close> is the
  shape of \<^verbatim>\<open>probe[idx]\<close> for every index tuple of slices, integers, lists, boolean arrays
  and \<^verbatim>\<open>None\<close>, does not hold. For the shape \<open>(4, 5, 6)\<close>, two lists of two integers
  select two elements along the first two dimensions, so the probe has the shape
  \<open>(2, 6)\<close>, while the function counts each list on its own and returns \<open>(2, 2, 6)\<close>; the
  tuple of one empty list gives a probe of shape \<open>(0, 5, 6)\<close>, while the function drops
  the first dimension and returns \<open>(5, 6)\<close>; and the boolean \<^verbatim>\<open>np.ndarray\<close>
  \<open>[True, False, True, True]\<close> selects three elements, so the probe has the shape
  \<open>(3, 5, 6)\<close>, while the function, which counts the true entries of a \<^verbatim>\<open>torch.Tensor\<close>
  only, takes the length of the array and returns \<open>(4, 5, 6)\<close>.
\<close>

theorem getitem_batch_size_probe_counterexample:
  "getitem_batch_size [4, 5, 6] (ITuple [IList [0, 1], IList [0, 1]]) = Inr [2, 2, 6]
   \<and> probe_shape [4, 5, 6] [IList [0, 1], IList [0, 1]] = Inr [2, 6]
   \<and> getitem_batch_size [4, 5, 6] (ITuple [IList []]) = Inr [5, 6]
   \<and> probe_shape [4, 5, 6] [IList []] = Inr [0, 5, 6]
   \<and> getitem_batch_size [4, 5, 6] (ITuple [IBoolArray [True, False, True, True]])
       = Inr [4, 5, 6]
   \<and> probe_shape [4, 5, 6] [IBoolArray [True, False, True, True]] = Inr [3, 5, 6]"
  by (simp add: getitem_batch_size_def batch_size_tuple_def probe_shape_def probe_result_def
      broadcast_sizes_def bool_sum_def Let_def)

text \<open>
  Claim C1, amended. Let \<open>idx\<close> be an index tuple whose elements are slices, integers,
  lists of integers (booleans are not counted as integers), boolean masks that are
  one-dimensional tensors of \<^verbatim>\<open>dtype\<close> \<^verbatim>\<open>torch.bool\<close>, or \<^verbatim>\<open>None\<close>, and that is a valid index
  of a probe of shape \<open>shape\<close>, with result shape \<open>r\<close>. If at most one element of \<open>idx\<close> is a list or a mask, \<open>idx\<close> is not the
  tuple of one empty list, and \<open>idx\<close> and \<open>shape\<close> are not both empty, then
  \<^verbatim>\<open>_getitem_batch_size(shape, idx)\<close> returns \<open>r\<close>. Boolean masks that are an \<^verbatim>\<open>np.ndarray\<close> or
  a list are not among these elements.
\<close>

theorem getitem_batch_size_probe:
  assumes frag: "list_all in_fragment idx"
    and valid: "probe_shape shape idx = Inr r"
    and one: "length (filter is_array idx) \<le> 1"
    and nonempty: "idx \<noteq> [IList []]"
    and scalar: "\<not> (idx = [] \<and> shape = [])"
  shows "getitem_batch_size shape (ITuple idx) = Inr r"
proof -
  from valid obtain es where w: "probe_walk idx shape = Inr es" and pr: "probe_result es = Inr r"
    unfolding probe_shape_def on_ok_Inr_iff by blast
  have "length (filter is_adv es) \<le> 1"
    unfolding probe_walk_arrays [OF w frag] by (rule one)
  from probe_result_one_array [OF this] pr have r: "r = map size_of es" by simp
  have loop: "batch_size_loop idx shape [] = Inr r"
    unfolding r using probe_walk_loop [OF w frag, of "[]"] by (simp only: append_Nil)
  show ?thesis
  proof (cases idx)
    case Nil
    with scalar have ne: "shape \<noteq> []" by simp
    from loop have "r = shape" unfolding Nil by simp
    then show ?thesis
      unfolding Nil getitem_batch_size_empty batch_size_tuple_empty [OF ne] by simp
  next
    case outer: (Cons x xs)
    show ?thesis
    proof (cases xs)
      case Nil
      have single: "idx = [x]" unfolding outer Nil ..
      have "batch_size_loop [x] shape [] = Inr r" using loop unfolding single .
      moreover have "in_fragment x" using frag unfolding single by simp
      moreover have "x \<noteq> IList []" using nonempty unfolding single by simp
      ultimately have "batch_size_simple shape x = Inr r"
        by (rule batch_size_simple_single)
      then show ?thesis unfolding single getitem_batch_size_single .
    next
      case (Cons y ys)
      have longer: "idx = x # y # ys" unfolding outer Cons ..
      show ?thesis
        unfolding longer getitem_batch_size_longer
        by (rule batch_size_tuple_longer) (use loop one in \<open>simp_all only: longer\<close>)
    qed
  qed
qed

theorem getitem_batch_size_probe_witness:
  "probe_shape [4, 5, 6]
     [ISlice (Some (- 3)) None (Some 2), INone, IBoolTensor [True, False, True, True, False],
      IInt (- 1)] = Inr [2, 1, 3]
   \<and> getitem_batch_size [4, 5, 6]
     (ITuple [ISlice (Some (- 3)) None (Some 2), INone,
              IBoolTensor [True, False, True, True, False], IInt (- 1)]) = Inr [2, 1, 3]"
proof -
  have valid: "probe_shape [4, 5, 6]
     [ISlice (Some (- 3)) None (Some 2), INone, IBoolTensor [True, False, True, True, False],
      IInt (- 1)] = Inr [2, 1, 3]"
    by (simp add: probe_shape_def probe_result_def broadcast_sizes_def torch_slice_len_def
        bool_sum_def Let_def)
  show ?thesis
    using getitem_batch_size_probe [OF _ valid] by (simp add: valid)
qed

end
